theory Spec2Isabelle
  imports Main "HOL-Library.Word"
begin

unbundle bit_operations_syntax

section \<open>Package ranges: byte ranges (src/lib/ranges/ranges.go)\<close>

text \<open>
  Go's \<open>int64\<close> is a 64-bit word read as two's complement: \<open>+\<close> and \<open>-\<close> wrap,
  and the comparisons of the source are the signed ones (\<open><s\<close>, \<open>\<le>s\<close>).
\<close>

type_synonym int64 = "64 word"

record Range =
  Pos :: int64
  Size :: int64

text \<open>The zero value \<open>Range{}\<close>.\<close>

definition Range0 :: Range where
  "Range0 = \<lparr>Pos = 0, Size = 0\<rparr>"

definition End :: "Range \<Rightarrow> int64" where
  "End r = Pos r + Size r"

definition IsEmpty :: "Range \<Rightarrow> bool" where
  "IsEmpty r = (Size r \<le>s 0)"

definition min64 :: "int64 \<Rightarrow> int64 \<Rightarrow> int64" where
  "min64 a b = (if a <s b then a else b)"

definition max64 :: "int64 \<Rightarrow> int64 \<Rightarrow> int64" where
  "max64 a b = (if b <s a then a else b)"

text \<open>\<open>Range.Intersection\<close>: the named result starts as the zero value.\<close>

definition Range_Intersection :: "Range \<Rightarrow> Range \<Rightarrow> Range" where
  "Range_Intersection r b =
     (if (Pos b \<le>s Pos r \<and> Pos r <s End b) \<or> (Pos r \<le>s Pos b \<and> Pos b <s End r)
      then (let p = max64 (Pos r) (Pos b)
            in \<lparr>Pos = p, Size = min64 (End r) (End b) - p\<rparr>)
      else Range0)"

text \<open>
  \<open>merge(new, dst *Range) bool\<close> writes through \<open>dst\<close>; the model returns the flag and
  the new value of \<open>*dst\<close>. The size is computed before \<open>dst.Pos\<close> is overwritten.
\<close>

definition merge :: "Range \<Rightarrow> Range \<Rightarrow> bool \<times> Range" where
  "merge new dst =
     (if End new <s Pos dst then (False, dst)
      else (True, \<lparr>Pos = Pos new,
                   Size = (if End dst <s End new then Size new
                           else Size dst + (Pos dst - Pos new))\<rparr>))"

text \<open>
  The loop of \<open>coalesce\<close>: \<open>for j = i; j < len(ranges)-1; j++\<close>, carrying the slice
  (whose element \<open>j+1\<close> each successful merge overwrites) and \<open>endChop\<close>.
\<close>

function coalesce_loop :: "Range list \<Rightarrow> nat \<Rightarrow> nat \<Rightarrow> Range list \<times> nat" where
  "coalesce_loop ranges j endChop =
     (if j + 1 < length ranges
      then (case merge (ranges ! j) (ranges ! (j + 1)) of
              (False, _) \<Rightarrow> (ranges, endChop)
            | (True, d) \<Rightarrow> coalesce_loop (ranges[j + 1 := d]) (j + 1) (j + 1))
      else (ranges, endChop))"
  by pat_completeness auto
termination
  by (relation "measure (\<lambda>(ranges, j, e). length ranges - j)") auto

text \<open>
  \<open>coalesce(i)\<close>, called by \<open>Insert\<close> only, always with \<open>i < len(ranges)\<close>.
  The chop \<open>copy(ranges[startChop:], ranges[endChop:])\<close> followed by the reslice to
  \<open>len - endChop + startChop\<close> keeps the first \<open>startChop\<close> elements and those from
  \<open>endChop\<close> on.
\<close>

definition coalesce :: "Range list \<Rightarrow> nat \<Rightarrow> Range list" where
  "coalesce ranges i =
     (let (ranges1, startChop) =
            (if i > 0
             then (case merge (ranges ! (i - 1)) (ranges ! i) of
                     (True, d) \<Rightarrow> (ranges[i := d], i - 1)
                   | (False, _) \<Rightarrow> (ranges, i))
             else (ranges, i));
          (ranges2, endChop) = coalesce_loop ranges1 i i
      in if endChop > startChop
         then take startChop ranges2 @ drop endChop ranges2
         else ranges2)"

text \<open>
  \<open>sort.Search(n, f)\<close> of Go's standard library: binary search for the least index in
  \<open>[0, n)\<close> at which \<open>f\<close> holds, \<open>n\<close> when there is none (for a monotone \<open>f\<close>).
\<close>

function sort_Search_loop :: "(nat \<Rightarrow> bool) \<Rightarrow> nat \<Rightarrow> nat \<Rightarrow> nat" where
  "sort_Search_loop f i j =
     (if i < j
      then (let h = (i + j) div 2
            in if \<not> f h then sort_Search_loop f (h + 1) j else sort_Search_loop f i h)
      else i)"
  by pat_completeness auto
termination
  by (relation "measure (\<lambda>(f, i, j). j - i)") auto

definition sort_Search :: "nat \<Rightarrow> (nat \<Rightarrow> bool) \<Rightarrow> nat" where
  "sort_Search n f = sort_Search_loop f 0 n"

definition search :: "Range list \<Rightarrow> Range \<Rightarrow> nat" where
  "search rs r = sort_Search (length rs) (\<lambda>i. Pos r \<le>s Pos (rs ! i))"

definition Insert :: "Range list \<Rightarrow> Range \<Rightarrow> Range list" where
  "Insert rs r =
     (if IsEmpty r then rs
      else if length rs = 0 then rs @ [r]
      else (let i = search rs r
            in if i = length rs then coalesce (take i rs @ [r] @ drop i rs) i
               else (case merge r (rs ! i) of
                       (False, _) \<Rightarrow> coalesce (take i rs @ [r] @ drop i rs) i
                     | (True, d) \<Rightarrow> coalesce (rs[i := d]) i)))"

text \<open>\<open>Find\<close> returns \<open>(curr, next, present)\<close>.\<close>

definition Find :: "Range list \<Rightarrow> Range \<Rightarrow> Range \<times> Range \<times> bool" where
  "Find rs r =
     (if IsEmpty r then (r, Range0, False)
      else
        (let i = search rs r;
             prev_inter = (if i > 0 then Range_Intersection (rs ! (i - 1)) r else Range0)
         in if i > 0 \<and> \<not> IsEmpty prev_inter
            then (prev_inter,
                  \<lparr>Pos = End prev_inter, Size = Size r - Size prev_inter\<rparr>, True)
            else if i \<ge> length rs then (r, Range0, False)
            else
              (let inter = Range_Intersection (rs ! i) r
               in if IsEmpty inter then (r, Range0, False)
                  else if Pos r <s Pos inter
                  then (let curr = \<lparr>Pos = Pos r, Size = Pos inter - Pos r\<rparr>
                        in (curr, \<lparr>Pos = End curr, Size = Size r - Size curr\<rparr>, False))
                  else (inter, \<lparr>Pos = End inter, Size = Size r - Size inter\<rparr>, True))))"

definition Present :: "Range list \<Rightarrow> Range \<Rightarrow> bool" where
  "Present rs r =
     (if IsEmpty r then True
      else (case Find rs r of
              (_, next, present) \<Rightarrow>
                if \<not> present then False
                else if IsEmpty next then True
                else False))"

text \<open>\<open>Ranges.Size\<close>: the sum of the sizes, in \<open>int64\<close> arithmetic.\<close>

fun Ranges_Size_from :: "int64 \<Rightarrow> Range list \<Rightarrow> int64" where
  "Ranges_Size_from acc [] = acc"
| "Ranges_Size_from acc (r # rs) = Ranges_Size_from (acc + Size r) rs"

definition Ranges_Size :: "Range list \<Rightarrow> int64" where
  "Ranges_Size rs = Ranges_Size_from 0 rs"

subsection \<open>Reading a range as an interval of integers\<close>

text \<open>
  The signed values of the two fields, and the end of the interval computed without
  wrap-around. A range is \<open>valid\<close> when it is one of the specification's data model:
  position and size non-negative, and the end representable in \<open>int64\<close>.
\<close>

definition lo :: "Range \<Rightarrow> int" where
  "lo r = sint (Pos r)"
definition sz :: "Range \<Rightarrow> int" where
  "sz r = sint (Size r)"
definition hi :: "Range \<Rightarrow> int" where
  "hi r = lo r + sz r"
definition valid :: "Range \<Rightarrow> bool" where
  "valid r = (0 \<le> lo r \<and> 0 \<le> sz r \<and> hi r < 2 ^ 63)"

text \<open>Two intervals intersect when the start of one lies inside the other.\<close>

definition hits :: "Range \<Rightarrow> Range \<Rightarrow> bool" where
  "hits a b = ((lo b \<le> lo a \<and> lo a < hi b) \<or> (lo a \<le> lo b \<and> lo b < hi a))"

subsection \<open>The arithmetic of \<open>int64\<close> where it does not wrap\<close>

lemma sint64_bounds: "- 9223372036854775808 \<le> sint (a::int64)" "sint (a::int64) < 9223372036854775808"
  using sint_ge [of a] sint_lt [of a] by simp_all

lemma sint64_add:
  "- 9223372036854775808 \<le> sint a + sint b \<Longrightarrow> sint a + sint b < 9223372036854775808
   \<Longrightarrow> sint (a + b :: int64) = sint a + sint b"
  by (simp add: sint_word_ariths signed_take_bit_int_eq_self)

lemma sint64_sub:
  "- 9223372036854775808 \<le> sint a - sint b \<Longrightarrow> sint a - sint b < 9223372036854775808
   \<Longrightarrow> sint (a - b :: int64) = sint a - sint b"
  by (simp add: sint_word_ariths signed_take_bit_int_eq_self)

lemma sint64_add_overflow:
  "9223372036854775808 \<le> sint a + sint b \<Longrightarrow> sint (a + b :: int64) < sint a"
  using signed_take_bit_int_less_eq [of 63 "sint a + sint b"] sint64_bounds [of b]
  by (simp add: sint_word_ariths)

lemma Range_eqI: "lo a = lo b \<Longrightarrow> sz a = sz b \<Longrightarrow> a = (b::Range)"
  by (cases a, cases b) (auto simp: lo_def sz_def intro: signed_word_eqI)

lemma End_valid: "valid r \<Longrightarrow> sint (End r) = hi r"
  by (simp add: valid_def hi_def lo_def sz_def End_def sint64_add)

lemma IsEmpty_sz: "IsEmpty r \<longleftrightarrow> sz r \<le> 0"
  by (simp add: IsEmpty_def sz_def word_sle_eq)

lemma Range0_simps [simp]: "lo Range0 = 0" "sz Range0 = 0" "hi Range0 = 0" "IsEmpty Range0"
  by (simp_all add: Range0_def lo_def sz_def hi_def IsEmpty_def)

lemma sint_min64: "sint (min64 a b) = min (sint a) (sint b)"
  by (simp add: min64_def word_sless_alt min_def)

lemma sint_max64: "sint (max64 a b) = max (sint a) (sint b)"
  by (simp add: max64_def word_sless_alt max_def)

lemma Range_Intersection_miss:
  assumes "valid a" "valid b" "\<not> hits a b"
  shows "Range_Intersection a b = Range0"
proof -
  have "\<not> ((Pos b \<le>s Pos a \<and> Pos a <s End b) \<or> (Pos a \<le>s Pos b \<and> Pos b <s End a))"
    using assms by (simp add: hits_def word_sle_eq word_sless_alt End_valid) (simp add: lo_def)
  then show ?thesis unfolding Range_Intersection_def by (rule if_not_P)
qed

lemma Range_Intersection_hit:
  assumes "valid a" "valid b" "hits a b"
  shows "lo (Range_Intersection a b) = max (lo a) (lo b)"
    and "sz (Range_Intersection a b) = min (hi a) (hi b) - max (lo a) (lo b)"
proof -
  have c: "(Pos b \<le>s Pos a \<and> Pos a <s End b) \<or> (Pos a \<le>s Pos b \<and> Pos b <s End a)"
    using assms by (simp add: hits_def word_sle_eq word_sless_alt End_valid) (simp add: lo_def)
  show "lo (Range_Intersection a b) = max (lo a) (lo b)"
    using c by (simp add: Range_Intersection_def Let_def lo_def sint_max64)
  have "sint (min64 (End a) (End b) - max64 (Pos a) (Pos b))
          = sint (min64 (End a) (End b)) - sint (max64 (Pos a) (Pos b))"
    using assms
    by (intro sint64_sub)
       (auto simp: sint_min64 sint_max64 End_valid valid_def hits_def hi_def lo_def)
  then show "sz (Range_Intersection a b) = min (hi a) (hi b) - max (lo a) (lo b)"
    using c assms
    by (simp add: Range_Intersection_def Let_def sz_def sint_max64 sint_min64 End_valid)
       (simp add: lo_def)
qed

lemma merge_no:
  assumes "valid new" "hi new < lo dst"
  shows "merge new dst = (False, dst)"
  using assms by (simp add: merge_def word_sless_alt End_valid) (simp add: lo_def)

lemma merge_yes:
  assumes "valid new" "valid dst" "lo new \<le> lo dst" "lo dst \<le> hi new"
  shows "fst (merge new dst)"
    and "lo (snd (merge new dst)) = lo new"
    and "hi (snd (merge new dst)) = max (hi new) (hi dst)"
proof -
  have c: "\<not> End new <s Pos dst"
    using assms by (simp add: word_sless_alt End_valid) (simp add: lo_def)
  show "fst (merge new dst)" using c by (simp add: merge_def)
  show l: "lo (snd (merge new dst)) = lo new" using c by (simp add: merge_def lo_def)
  have s1: "sint (Pos dst - Pos new) = lo dst - lo new"
    using assms unfolding lo_def
    by (intro sint64_sub) (auto simp: valid_def hi_def lo_def sz_def)
  have s2: "sint (Size dst + (Pos dst - Pos new)) = sz dst + (lo dst - lo new)"
    using assms unfolding sz_def s1 [symmetric]
    by (intro sint64_add) (auto simp: s1 valid_def hi_def lo_def sz_def)
  have "sz (snd (merge new dst)) = max (hi new) (hi dst) - lo new"
  proof (cases "End dst <s End new")
    case True
    then have "hi dst < hi new" using assms by (simp add: word_sless_alt End_valid)
    moreover have "sz (snd (merge new dst)) = sz new"
      using c True by (simp add: merge_def sz_def)
    ultimately show ?thesis by (simp add: hi_def)
  next
    case False
    then have "hi new \<le> hi dst" using assms by (simp add: word_sless_alt End_valid)
    moreover have "sz (snd (merge new dst)) = sz dst + (lo dst - lo new)"
      using c False s2 by (simp add: merge_def sz_def)
    ultimately show ?thesis by (simp add: hi_def)
  qed
  then show "hi (snd (merge new dst)) = max (hi new) (hi dst)"
    using l by (simp add: hi_def)
qed

lemma merge_yes_valid:
  assumes "valid new" "valid dst" "lo new \<le> lo dst" "lo dst \<le> hi new"
  shows "valid (snd (merge new dst))" and "sz new \<le> sz (snd (merge new dst))"
  using merge_yes [OF assms] assms
  by (auto simp: valid_def hi_def)

subsection \<open>\<open>Find\<close> always hands back a smaller range\<close>

lemma sint64_sub_pos:
  assumes "0 < sint a" "0 < sint b"
  shows "sint (a - b :: int64) < sint a"
proof -
  have "sint (a - b) = sint a - sint b"
    using assms sint64_bounds [of a] sint64_bounds [of b] by (intro sint64_sub) auto
  then show ?thesis using assms by simp
qed

lemma Range_Intersection_nonempty_cases:
  assumes "\<not> IsEmpty (Range_Intersection a b)"
  shows "Pos (Range_Intersection a b) = max64 (Pos a) (Pos b)"
    and "(Pos b \<le>s Pos a \<and> Pos a <s End b) \<or> (Pos a \<le>s Pos b \<and> Pos b <s End a)"
proof -
  show c: "(Pos b \<le>s Pos a \<and> Pos a <s End b) \<or> (Pos a \<le>s Pos b \<and> Pos b <s End a)"
  proof (rule ccontr)
    assume "\<not> ?thesis"
    then have "Range_Intersection a b = Range0"
      unfolding Range_Intersection_def by (rule if_not_P)
    with assms show False by simp
  qed
  then show "Pos (Range_Intersection a b) = max64 (Pos a) (Pos b)"
    by (simp add: Range_Intersection_def Let_def)
qed

lemma Find_gap_size:
  assumes r: "\<not> IsEmpty r"
    and i: "\<not> IsEmpty (Range_Intersection found r)"
    and p: "Pos r <s Pos (Range_Intersection found r)"
  shows "0 < sint (Pos (Range_Intersection found r) - Pos r)"
proof -
  note ne = Range_Intersection_nonempty_cases [OF i]
  from p have pf: "sint (Pos r) < sint (Pos found)" and eq: "Pos (Range_Intersection found r) = Pos found"
    unfolding ne(1) by (auto simp: max64_def word_sless_alt split: if_splits)
  with ne(2) have e: "sint (Pos found) < sint (End r)"
    by (auto simp: word_sless_alt word_sle_eq)
  have s: "0 < sint (Size r)" using r by (simp add: IsEmpty_def word_sle_eq)
  have "sint (Pos r) + sint (Size r) < 9223372036854775808"
  proof (rule ccontr)
    assume "\<not> ?thesis"
    then have "sint (Pos r + Size r) < sint (Pos r)" by (intro sint64_add_overflow) simp
    with e pf show False by (simp add: End_def)
  qed
  then have "sint (End r) = sint (Pos r) + sint (Size r)"
    using s sint64_bounds [of "Pos r"] unfolding End_def by (intro sint64_add) auto
  with e have "sint (Pos found) - sint (Pos r) < sint (Size r)" by simp
  then have "sint (Pos found - Pos r) = sint (Pos found) - sint (Pos r)"
    using pf s sint64_bounds [of "Size r"]
    by (intro sint64_sub) auto
  with pf eq show ?thesis by simp
qed

lemma Find_next_smaller:
  assumes "\<not> IsEmpty r"
  shows "sint (Size (fst (snd (Find rs r)))) < sint (Size r)"
proof -
  have s: "0 < sint (Size r)" using assms by (simp add: IsEmpty_def word_sle_eq)
  have ne: "\<And>x. \<not> IsEmpty x \<Longrightarrow> sint (Size r - Size x) < sint (Size r)"
    using s by (intro sint64_sub_pos) (auto simp: IsEmpty_def word_sle_eq)
  have z: "sint (Size Range0) < sint (Size r)" using s by (simp add: Range0_def)
  have gap: "\<And>f. \<not> IsEmpty (Range_Intersection f r) \<Longrightarrow> Pos r <s Pos (Range_Intersection f r)
     \<Longrightarrow> sint (Size r - (Pos (Range_Intersection f r) - Pos r)) < sint (Size r)"
    using s Find_gap_size [OF assms] by (intro sint64_sub_pos) auto
  show ?thesis
    using assms ne z gap by (auto simp: Find_def Let_def)
qed

lemma Find_measure:
  assumes "\<not> IsEmpty r" "(c, n, f) = Find rs r"
  shows "sint (Size n) < sint (Size r)" and "0 < sint (Size r)"
proof -
  show "sint (Size n) < sint (Size r)"
    using Find_next_smaller [OF assms(1), of rs] assms(2) [symmetric] by simp
  show "0 < sint (Size r)"
    using assms(1) by (simp add: IsEmpty_def word_sle_eq)
qed

text \<open>
  \<open>Ranges.Intersection\<close>: the loop \<open>for !r.IsEmpty()\<close> calls \<open>Find\<close> and inserts what
  is present into \<open>newRs\<close>, which starts as the nil slice. It terminates on every
  input, since the size of the range handed back by \<open>Find\<close> is smaller.
\<close>

function Ranges_Intersection_loop :: "Range list \<Rightarrow> Range \<Rightarrow> Range list \<Rightarrow> Range list" where
  "Ranges_Intersection_loop rs r newRs =
     (if \<not> IsEmpty r
      then (case Find rs r of
              (cur, next, found) \<Rightarrow>
                Ranges_Intersection_loop rs next (if found then Insert newRs cur else newRs))
      else newRs)"
  by pat_completeness auto
termination
  by (relation "measure (\<lambda>(rs, r, newRs). nat (sint (Size r)))")
     (auto intro: Find_measure)

definition Ranges_Intersection :: "Range list \<Rightarrow> Range \<Rightarrow> Range list" where
  "Ranges_Intersection rs r =
     (if length rs = 0 then rs else Ranges_Intersection_loop rs r [])"

subsection \<open>The invariant of a range set and what it covers\<close>

text \<open>The bytes of a range, and the bytes covered by a range set.\<close>

definition rng :: "Range \<Rightarrow> int set" where
  "rng r = {lo r ..< hi r}"

definition cover :: "Range list \<Rightarrow> int set" where
  "cover rs = (\<Union>r \<in> set rs. rng r)"

text \<open>
  The RangeSet invariant, in the terms of the code: every member is a valid non-empty
  range, and each member ends strictly before the next one starts.
\<close>

fun RangeSet :: "Range list \<Rightarrow> bool" where
  "RangeSet [] = True"
| "RangeSet [x] = (valid x \<and> \<not> IsEmpty x)"
| "RangeSet (x # y # zs) = (valid x \<and> \<not> IsEmpty x \<and> End x <s Pos y \<and> RangeSet (y # zs))"

text \<open>The same on the integer reading: a member, and the strict gap between two.\<close>

definition good :: "Range \<Rightarrow> bool" where
  "good x = (valid x \<and> 0 < sz x)"

definition gap :: "Range \<Rightarrow> Range \<Rightarrow> bool" where
  "gap a b = (hi a < lo b)"

text \<open>
  What the loop of \<open>coalesce\<close> computes on the tail of the slice: the element at \<open>i\<close>
  swallows its successors for as long as \<open>merge\<close> succeeds.
\<close>

fun absorb :: "Range \<Rightarrow> Range list \<Rightarrow> Range list" where
  "absorb x [] = [x]"
| "absorb x (y # ys) =
     (case merge x y of (False, _) \<Rightarrow> x # y # ys | (True, d) \<Rightarrow> absorb d ys)"

text \<open>The three outcomes of \<open>Find\<close> on a non-empty range.\<close>

definition Find_hit :: "Range list \<Rightarrow> Range \<Rightarrow> Range \<Rightarrow> bool" where
  "Find_hit rs r m =
     (case Find rs r of (cur, nxt, present) \<Rightarrow>
        present \<and> lo cur = lo r \<and> hi cur = min (hi m) (hi r) \<and>
        nxt = \<lparr>Pos = End cur, Size = Size r - Size cur\<rparr>)"

definition Find_gap :: "Range list \<Rightarrow> Range \<Rightarrow> Range \<Rightarrow> bool" where
  "Find_gap rs r f =
     (case Find rs r of (cur, nxt, present) \<Rightarrow>
        \<not> present \<and> lo cur = lo r \<and> hi cur = lo f \<and>
        nxt = \<lparr>Pos = End cur, Size = Size r - Size cur\<rparr>)"

subsection \<open>Binary search on a range set\<close>

declare sort_Search_loop.simps [simp del] coalesce_loop.simps [simp del]
  Ranges_Intersection_loop.simps [simp del]

lemma sort_Search_loop_stop: "\<not> i < j \<Longrightarrow> sort_Search_loop f i j = i"
  by (subst sort_Search_loop.simps) simp

lemma sort_Search_loop_step:
  "i < j \<Longrightarrow> sort_Search_loop f i j =
     (if f ((i + j) div 2) then sort_Search_loop f i ((i + j) div 2)
      else sort_Search_loop f ((i + j) div 2 + 1) j)"
  by (subst sort_Search_loop.simps) (simp add: Let_def)

lemma sort_Search_loop_bounds:
  "i \<le> j \<Longrightarrow> i \<le> sort_Search_loop f i j \<and> sort_Search_loop f i j \<le> j"
proof (induction f i j rule: sort_Search_loop.induct)
  case (1 f i j)
  show ?case
  proof (cases "i < j")
    case False
    with 1(3) show ?thesis by (simp add: sort_Search_loop_stop)
  next
    case True
    define h where "h = (i + j) div 2"
    have h: "i \<le> h" "h < j" using True by (auto simp: h_def)
    show ?thesis
    proof (cases "f h")
      case fh: True
      have "i \<le> sort_Search_loop f i h \<and> sort_Search_loop f i h \<le> h"
        using 1(2) [OF True h_def] fh h by simp
      then show ?thesis
        using fh h by (simp add: sort_Search_loop_step [OF True] h_def [symmetric])
    next
      case fh: False
      have "h + 1 \<le> sort_Search_loop f (h + 1) j \<and> sort_Search_loop f (h + 1) j \<le> j"
        using 1(1) [OF True h_def] fh h by simp
      then show ?thesis
        using fh h by (simp add: sort_Search_loop_step [OF True] h_def [symmetric])
    qed
  qed
qed

lemma sort_Search_loop_least:
  assumes "i \<le> j"
    and "\<And>k k'. i \<le> k \<Longrightarrow> k \<le> k' \<Longrightarrow> k' < j \<Longrightarrow> f k \<Longrightarrow> f k'"
  shows "(\<forall>k. i \<le> k \<and> k < sort_Search_loop f i j \<longrightarrow> \<not> f k) \<and>
         (\<forall>k. sort_Search_loop f i j \<le> k \<and> k < j \<longrightarrow> f k)"
  using assms
proof (induction f i j rule: sort_Search_loop.induct)
  case (1 f i j)
  show ?case
  proof (cases "i < j")
    case False
    with 1(3) show ?thesis by (auto simp: sort_Search_loop_stop)
  next
    case lt: True
    define h where "h = (i + j) div 2"
    have h: "i \<le> h" "h < j" using lt by (auto simp: h_def)
    show ?thesis
    proof (cases "f h")
      case True
      have e: "sort_Search_loop f i j = sort_Search_loop f i h"
        using True by (simp add: sort_Search_loop_step [OF lt] h_def [symmetric])
      have m: "f k'" if "i \<le> k" "k \<le> k'" "k' < h" "f k" for k k'
        by (rule 1(4) [of k k']) (use that h in auto)
      have ih: "(\<forall>k. i \<le> k \<and> k < sort_Search_loop f i h \<longrightarrow> \<not> f k) \<and>
                (\<forall>k. sort_Search_loop f i h \<le> k \<and> k < h \<longrightarrow> f k)"
        using 1(2) [OF lt h_def _ h(1) m] True by simp
      have up: "f k" if "h \<le> k" "k < j" for k
        by (rule 1(4) [of h k]) (use that h True in auto)
      show ?thesis unfolding e
      proof (intro conjI allI impI)
        fix k assume "i \<le> k \<and> k < sort_Search_loop f i h"
        then show "\<not> f k" using ih by blast
      next
        fix k assume k: "sort_Search_loop f i h \<le> k \<and> k < j"
        show "f k"
        proof (cases "k < h")
          case True
          with k ih show ?thesis by blast
        next
          case False
          with k up show ?thesis by simp
        qed
      qed
    next
      case False
      have e: "sort_Search_loop f i j = sort_Search_loop f (h + 1) j"
        using False by (simp add: sort_Search_loop_step [OF lt] h_def [symmetric])
      have m: "f k'" if "h + 1 \<le> k" "k \<le> k'" "k' < j" "f k" for k k'
        by (rule 1(4) [of k k']) (use that h in auto)
      have hj: "h + 1 \<le> j" using h by simp
      have ih: "(\<forall>k. h + 1 \<le> k \<and> k < sort_Search_loop f (h + 1) j \<longrightarrow> \<not> f k) \<and>
                (\<forall>k. sort_Search_loop f (h + 1) j \<le> k \<and> k < j \<longrightarrow> f k)"
        using 1(1) [OF lt h_def _ hj m] False by simp
      have dn: "\<not> f k" if "i \<le> k" "k \<le> h" for k
        using 1(4) [of k h] h False that by blast
      have b: "h + 1 \<le> sort_Search_loop f (h + 1) j"
        using sort_Search_loop_bounds [OF hj] by simp
      show ?thesis unfolding e
      proof (intro conjI allI impI)
        fix k assume k: "i \<le> k \<and> k < sort_Search_loop f (h + 1) j"
        show "\<not> f k"
        proof (cases "k \<le> h")
          case True
          with k dn show ?thesis by simp
        next
          case False
          with k ih show ?thesis by simp
        qed
      next
        fix k assume k: "sort_Search_loop f (h + 1) j \<le> k \<and> k < j"
        then show "f k" using ih by blast
      qed
    qed
  qed
qed

lemma RangeSet_iff: "RangeSet rs \<longleftrightarrow> list_all good rs \<and> sorted_wrt gap rs"
proof (induction rs rule: RangeSet.induct)
  case 1
  show ?case by simp
next
  case (2 x)
  show ?case by (auto simp: good_def IsEmpty_sz)
next
  case (3 x y zs)
  have a: "valid x \<Longrightarrow> End x <s Pos y \<longleftrightarrow> hi x < lo y"
    by (simp add: word_sless_alt End_valid) (simp add: lo_def)
  have b: "\<forall>z \<in> set zs. gap x z"
    if "good y" "\<forall>z \<in> set zs. gap y z" "hi x < lo y"
    using that by (fastforce simp: gap_def good_def hi_def)
  show ?case
  proof
    assume l: "RangeSet (x # y # zs)"
    then have "valid x" "0 < sz x" "hi x < lo y" "list_all good (y # zs)" "sorted_wrt gap (y # zs)"
      using 3 a by (auto simp: IsEmpty_sz)
    then show "list_all good (x # y # zs) \<and> sorted_wrt gap (x # y # zs)"
      using b by (simp add: good_def gap_def)
  next
    assume r: "list_all good (x # y # zs) \<and> sorted_wrt gap (x # y # zs)"
    then have "RangeSet (y # zs)" using 3 by simp
    with r a show "RangeSet (x # y # zs)"
      by (simp add: good_def gap_def IsEmpty_sz)
  qed
qed

lemma search_le: "search rs r \<le> length rs"
  using sort_Search_loop_bounds [of 0 "length rs"] by (simp add: search_def sort_Search_def)

lemma RangeSet_nth_gap:
  "RangeSet rs \<Longrightarrow> k < k' \<Longrightarrow> k' < length rs \<Longrightarrow> hi (rs ! k) < lo (rs ! k')"
  using sorted_wrt_nth_less [of gap rs k k'] by (simp add: RangeSet_iff gap_def)

lemma RangeSet_nth_good: "RangeSet rs \<Longrightarrow> k < length rs \<Longrightarrow> good (rs ! k)"
  by (simp add: RangeSet_iff list_all_length)

lemma RangeSet_nth_mono:
  assumes "RangeSet rs" "k \<le> k'" "k' < length rs"
  shows "lo (rs ! k) \<le> lo (rs ! k')"
proof (cases "k = k'")
  case False
  then have "hi (rs ! k) < lo (rs ! k')" using assms by (intro RangeSet_nth_gap) auto
  moreover have "good (rs ! k)" using assms by (intro RangeSet_nth_good) auto
  ultimately show ?thesis by (simp add: good_def hi_def)
qed simp

lemma search_RangeSet:
  assumes "RangeSet rs"
  shows "k < search rs r \<Longrightarrow> lo (rs ! k) < lo r"
    and "search rs r \<le> k \<Longrightarrow> k < length rs \<Longrightarrow> lo r \<le> lo (rs ! k)"
proof -
  let ?f = "\<lambda>i. Pos r \<le>s Pos (rs ! i)"
  have f: "?f i \<longleftrightarrow> lo r \<le> lo (rs ! i)" for i by (simp add: word_sle_eq lo_def)
  have m: "?f k'" if "0 \<le> k" "k \<le> k'" "k' < length rs" "?f k" for k k'
    using RangeSet_nth_mono [OF assms that(2,3)] that(4) unfolding f by simp
  have l: "(\<forall>k. 0 \<le> k \<and> k < search rs r \<longrightarrow> \<not> ?f k) \<and>
           (\<forall>k. search rs r \<le> k \<and> k < length rs \<longrightarrow> ?f k)"
    unfolding search_def sort_Search_def
    by (rule sort_Search_loop_least) (use m in blast)+
  show "k < search rs r \<Longrightarrow> lo (rs ! k) < lo r" using l f by (simp add: not_le)
  show "search rs r \<le> k \<Longrightarrow> k < length rs \<Longrightarrow> lo r \<le> lo (rs ! k)" using l f by simp
qed

lemma coalesce_loop_absorb:
  "length A = j \<Longrightarrow>
   take j (fst (coalesce_loop (A @ x # B) j j)) = A \<and>
   drop (snd (coalesce_loop (A @ x # B) j j)) (fst (coalesce_loop (A @ x # B) j j)) = absorb x B \<and>
   j \<le> snd (coalesce_loop (A @ x # B) j j)"
proof (induction B arbitrary: A x j)
  case Nil
  then show ?case by (subst (1 2 3 4) coalesce_loop.simps) simp
next
  case (Cons y ys)
  have n: "(A @ x # y # ys) ! j = x" "(A @ x # y # ys) ! (j + 1) = y"
    using Cons.prems by (simp_all add: nth_append)
  show ?case
  proof (cases "fst (merge x y)")
    case False
    then have e: "coalesce_loop (A @ x # y # ys) j j = (A @ x # y # ys, j)"
      using Cons.prems n by (subst coalesce_loop.simps) (auto split: prod.splits)
    show ?thesis unfolding e using Cons.prems False by (auto split: prod.splits)
  next
    case True
    define d where "d = snd (merge x y)"
    have u: "(A @ x # y # ys)[j + 1 := d] = (A @ [x]) @ d # ys"
      using Cons.prems by (simp add: list_update_append)
    have e: "coalesce_loop (A @ x # y # ys) j j = coalesce_loop ((A @ [x]) @ d # ys) (j + 1) (j + 1)"
      using Cons.prems n True
      by (subst coalesce_loop.simps) (auto simp: d_def list_update_append split: prod.splits)
    have l: "length (A @ [x]) = j + 1" using Cons.prems by simp
    note ih = Cons.IH [OF l, of d]
    have t: "take j (fst (coalesce_loop ((A @ [x]) @ d # ys) (j + 1) (j + 1))) = A"
    proof -
      have "take j (take (j + 1) (fst (coalesce_loop ((A @ [x]) @ d # ys) (j + 1) (j + 1)))) = take j (A @ [x])"
        using ih by simp
      then show ?thesis using Cons.prems by (simp add: min_def)
    qed
    show ?thesis unfolding e using ih t True by (auto simp: d_def split: prod.splits)
  qed
qed

lemma coalesce_loop_length: "length (fst (coalesce_loop rs j e)) = length rs"
proof (induction rs j e rule: coalesce_loop.induct)
  case (1 ranges j endChop)
  show ?case
  proof (cases "j + 1 < length ranges \<and> fst (merge (ranges ! j) (ranges ! (j + 1)))")
    case True
    then show ?thesis
      using 1 [of "fst (merge (ranges ! j) (ranges ! (j + 1)))" "snd (merge (ranges ! j) (ranges ! (j + 1)))"]
      by (subst coalesce_loop.simps) (auto split: prod.splits)
  next
    case False
    then show ?thesis by (subst coalesce_loop.simps) (auto split: prod.splits)
  qed
qed

lemma coalesce_Nil: "coalesce (x # B) 0 = absorb x B"
  using coalesce_loop_absorb [of "[]" 0 x B]
  by (auto simp: coalesce_def Let_def split: prod.splits)

lemma coalesce_snoc:
  "coalesce (A @ p # x # B) (Suc (length A)) =
     (if fst (merge p x) then A @ absorb (snd (merge p x)) B else A @ p # absorb x B)"
proof (cases "fst (merge p x)")
  case True
  define d where "d = snd (merge p x)"
  have m: "merge p x = (True, d)" using True by (simp add: d_def prod_eq_iff)
  have u: "(A @ p # x # B)[Suc (length A) := d] = (A @ [p]) @ d # B"
    by (simp add: list_update_append)
  note l = coalesce_loop_absorb [of "A @ [p]" "Suc (length A)" d B, simplified]
  obtain rs' e where r: "coalesce_loop (A @ p # d # B) (Suc (length A)) (Suc (length A)) = (rs', e)"
    by (cases "coalesce_loop (A @ p # d # B) (Suc (length A)) (Suc (length A))")
  have "take (length A) (take (Suc (length A)) rs') = take (length A) (A @ [p])"
    using l r by simp
  then have t: "take (length A) rs' = A" by (simp add: min_def)
  have "coalesce (A @ p # x # B) (Suc (length A)) = take (length A) rs' @ drop e rs'"
    using m l r by (simp add: coalesce_def Let_def nth_append list_update_append)
  then show ?thesis using True t l r by (simp add: d_def)
next
  case False
  then obtain q where m: "merge p x = (False, q)" by (cases "merge p x") auto
  note l = coalesce_loop_absorb [of "A @ [p]" "Suc (length A)" x B, simplified]
  obtain rs' e where r: "coalesce_loop (A @ p # x # B) (Suc (length A)) (Suc (length A)) = (rs', e)"
    by (cases "coalesce_loop (A @ p # x # B) (Suc (length A)) (Suc (length A))")
  have s: "take (Suc (length A)) rs' @ drop e rs' = A @ p # absorb x B"
    using l r by simp
  have "e = Suc (length A) \<Longrightarrow> rs' = A @ p # absorb x B"
    using s append_take_drop_id [of "Suc (length A)" rs'] by simp
  moreover have "coalesce (A @ p # x # B) (Suc (length A)) =
      (if Suc (length A) < e then take (Suc (length A)) rs' @ drop e rs' else rs')"
    using m r by (subst coalesce_def) (simp add: Let_def nth_append)
  ultimately show ?thesis using False s l r by (auto simp: not_less)
qed

subsection \<open>\<open>Insert\<close> keeps the invariant and adds exactly the bytes of the range\<close>

lemma RangeSet_Cons: "RangeSet (x # ys) \<longleftrightarrow> good x \<and> (\<forall>y \<in> set ys. gap x y) \<and> RangeSet ys"
  by (auto simp: RangeSet_iff)

lemma RangeSet_append:
  "RangeSet (A @ L) \<longleftrightarrow> RangeSet A \<and> RangeSet L \<and> (\<forall>a \<in> set A. \<forall>z \<in> set L. gap a z)"
  by (auto simp: RangeSet_iff sorted_wrt_append)

lemma RangeSet_good: "RangeSet rs \<Longrightarrow> x \<in> set rs \<Longrightarrow> good x"
  by (auto simp: RangeSet_iff list_all_iff)

lemma cover_simps [simp]:
  "cover [] = {}" "cover (x # xs) = rng x \<union> cover xs" "cover (A @ B) = cover A \<union> cover B"
  by (auto simp: cover_def)

lemma good_lo_hi: "good x \<Longrightarrow> lo x < hi x"
  by (simp add: good_def hi_def)

lemma merge_yes_good:
  assumes "good x" "good y" "lo x \<le> lo y" "lo y \<le> hi x"
  shows "fst (merge x y)"
    and "good (snd (merge x y))"
    and "lo (snd (merge x y)) = lo x"
    and "hi (snd (merge x y)) = max (hi x) (hi y)"
    and "rng (snd (merge x y)) = rng x \<union> rng y"
proof -
  have v: "valid x" "valid y" using assms by (auto simp: good_def)
  note m = merge_yes [OF v assms(3,4)] merge_yes_valid [OF v assms(3,4)]
  show "fst (merge x y)" by (rule m)
  show "good (snd (merge x y))" using m assms(1) by (simp add: good_def)
  show "lo (snd (merge x y)) = lo x" by (rule m)
  show "hi (snd (merge x y)) = max (hi x) (hi y)" by (rule m)
  show "rng (snd (merge x y)) = rng x \<union> rng y"
    using m(2,3) assms good_lo_hi [OF assms(1)] good_lo_hi [OF assms(2)]
    by (auto simp: rng_def)
qed

lemma merge_no_good:
  assumes "good x" "hi x < lo y"
  shows "merge x y = (False, y)"
  using assms by (intro merge_no) (auto simp: good_def)

lemma absorb_Cons:
  "absorb x (y # ys) = (if fst (merge x y) then absorb (snd (merge x y)) ys else x # y # ys)"
  by (auto split: prod.splits)

lemma absorb_sem:
  assumes "good x" "RangeSet B" "\<forall>y \<in> set B. lo x \<le> lo y"
  shows "RangeSet (absorb x B) \<and> cover (absorb x B) = rng x \<union> cover B \<and>
         (\<forall>z \<in> set (absorb x B). lo x \<le> lo z)"
  using assms
proof (induction B arbitrary: x)
  case Nil
  then show ?case by (simp add: RangeSet_Cons)
next
  case (Cons y ys)
  have gy: "good y" and rys: "RangeSet ys" and gys: "\<forall>z \<in> set ys. gap y z"
    using Cons.prems(2) by (auto simp: RangeSet_Cons)
  have xy: "lo x \<le> lo y" using Cons.prems(3) by simp
  show ?case
  proof (cases "hi x < lo y")
    case True
    have "\<forall>z \<in> set (y # ys). gap x z"
      using True gys good_lo_hi [OF gy] by (auto simp: gap_def)
    then show ?thesis
      using merge_no_good [OF Cons.prems(1) True] Cons.prems
      unfolding absorb_Cons by (simp add: RangeSet_Cons)
  next
    case False
    then have yx: "lo y \<le> hi x" by simp
    note m = merge_yes_good [OF Cons.prems(1) gy xy yx]
    define d where "d = snd (merge x y)"
    have "\<forall>z \<in> set ys. lo d \<le> lo z"
      using gys good_lo_hi [OF gy] xy m(3) by (fastforce simp: gap_def d_def)
    from Cons.IH [OF m(2) [folded d_def] rys this]
    show ?thesis using m unfolding absorb_Cons by (auto simp: d_def)
  qed
qed

lemma coalesce_sem:
  assumes A: "RangeSet A" and X: "good X" and B: "RangeSet B"
    and AX: "\<forall>a \<in> set A. lo a < lo X" and XB: "\<forall>y \<in> set B. lo X \<le> lo y"
    and AB: "\<forall>a \<in> set A. \<forall>y \<in> set B. gap a y"
  shows "RangeSet (coalesce (A @ X # B) (length A)) \<and>
         cover (coalesce (A @ X # B) (length A)) = cover A \<union> rng X \<union> cover B"
proof (cases A rule: rev_cases)
  case Nil
  then show ?thesis using absorb_sem [OF X B XB] by (simp add: coalesce_Nil)
next
  case (snoc A' p)
  have gp: "good p" and rA': "RangeSet A'" and A'p: "\<forall>a \<in> set A'. gap a p"
    using A by (auto simp: snoc RangeSet_append RangeSet_Cons)
  have pX: "lo p < lo X" using AX snoc by simp
  have c: "coalesce (A @ X # B) (length A) =
      (if fst (merge p X) then A' @ absorb (snd (merge p X)) B else A' @ p # absorb X B)"
    using coalesce_snoc [of A' p X B] by (simp add: snoc)
  show ?thesis
  proof (cases "hi p < lo X")
    case True
    note s = absorb_sem [OF X B XB]
    have g: "\<forall>a \<in> set A. \<forall>z \<in> set (absorb X B). gap a z"
    proof (intro ballI)
      fix a z assume a: "a \<in> set A" and z: "z \<in> set (absorb X B)"
      have "hi a \<le> hi p" using a A'p good_lo_hi [OF gp] by (auto simp: snoc gap_def)
      then show "gap a z" using s z True by (fastforce simp: gap_def)
    qed
    have "coalesce (A @ X # B) (length A) = A @ absorb X B"
      using c merge_no_good [OF gp True] by (simp add: snoc)
    then show ?thesis using s g A by (auto simp: RangeSet_append)
  next
    case False
    then have Xp: "lo X \<le> hi p" by simp
    note m = merge_yes_good [OF gp X less_imp_le [OF pX] Xp]
    define d where "d = snd (merge p X)"
    have dB: "\<forall>y \<in> set B. lo d \<le> lo y" using XB pX m(3) by (fastforce simp: d_def)
    note s = absorb_sem [OF m(2) [folded d_def] B dB]
    have g: "\<forall>a \<in> set A'. \<forall>z \<in> set (absorb d B). gap a z"
      using A'p s m(3) by (fastforce simp: gap_def d_def)
    have "coalesce (A @ X # B) (length A) = A' @ absorb d B"
      using c m(1) by (simp add: d_def)
    then show ?thesis using s g rA' m(5) by (auto simp: RangeSet_append snoc d_def)
  qed
qed

lemma Insert_unfold:
  assumes "\<not> IsEmpty r" "rs \<noteq> []"
  shows "Insert rs r =
     (if search rs r = length rs \<or> \<not> fst (merge r (rs ! search rs r))
      then coalesce (take (search rs r) rs @ r # drop (search rs r) rs) (search rs r)
      else coalesce (rs[search rs r := snd (merge r (rs ! search rs r))]) (search rs r))"
  using assms by (auto simp: Insert_def Let_def split: prod.splits)

lemma rng_empty: "sz r \<le> 0 \<Longrightarrow> rng r = {}"
  by (simp add: rng_def hi_def)

lemma search_take_drop:
  assumes "RangeSet rs"
  shows "\<forall>a \<in> set (take (search rs r) rs). lo a < lo r"
    and "\<forall>b \<in> set (drop (search rs r) rs). lo r \<le> lo b"
proof -
  show "\<forall>a \<in> set (take (search rs r) rs). lo a < lo r"
    using search_RangeSet(1) [OF assms] by (auto simp: in_set_conv_nth)
  show "\<forall>b \<in> set (drop (search rs r) rs). lo r \<le> lo b"
    using search_RangeSet(2) [OF assms, of r] search_le [of rs r]
    by (auto simp: in_set_conv_nth)
qed

lemma Insert_sem:
  assumes rs: "RangeSet rs" and r: "valid r"
  shows "RangeSet (Insert rs r) \<and> cover (Insert rs r) = cover rs \<union> rng r"
proof (cases "IsEmpty r")
  case True
  then show ?thesis using rs by (simp add: Insert_def rng_empty IsEmpty_sz)
next
  case ne: False
  then have g: "good r" using r by (simp add: good_def IsEmpty_sz)
  show ?thesis
  proof (cases "rs = []")
    case True
    then show ?thesis using ne r by (simp add: Insert_def)
  next
    case False
    define i where "i = search rs r"
    define A where "A = take i rs"
    define B where "B = drop i rs"
    have AB: "rs = A @ B" by (simp add: A_def B_def)
    have il: "i \<le> length rs" unfolding i_def by (rule search_le)
    have lA: "length A = i" using il by (simp add: A_def)
    have rA: "RangeSet A" and rB: "RangeSet B" and gAB: "\<forall>a \<in> set A. \<forall>b \<in> set B. gap a b"
      using rs unfolding AB by (auto simp: RangeSet_append)
    have Ar: "\<forall>a \<in> set A. lo a < lo r" and rB': "\<forall>b \<in> set B. lo r \<le> lo b"
      using search_take_drop [OF rs, of r] by (auto simp: A_def B_def i_def)
    note u = Insert_unfold [OF ne False, folded i_def, folded A_def B_def]
    show ?thesis
    proof (cases "i = length rs \<or> \<not> fst (merge r (rs ! i))")
      case True
      then have e: "Insert rs r = coalesce (A @ r # B) (length A)" using u lA by simp
      show ?thesis unfolding e
        using coalesce_sem [OF rA g rB Ar rB' gAB] by (auto simp: AB)
    next
      case False
      then have ilt: "i < length rs" and m: "fst (merge r (rs ! i))" using il by auto
      define b where "b = rs ! i"
      define B0 where "B0 = drop (Suc i) rs"
      have Bc: "B = b # B0" using ilt by (simp add: B_def b_def B0_def Cons_nth_drop_Suc)
      have gb: "good b" and rB0: "RangeSet B0" and gbB0: "\<forall>y \<in> set B0. gap b y"
        using rB by (auto simp: Bc RangeSet_Cons)
      have rb: "lo r \<le> lo b" using rB' by (simp add: Bc)
      have br: "lo b \<le> hi r"
      proof (rule ccontr)
        assume "\<not> ?thesis"
        then have "merge r b = (False, b)" using g by (intro merge_no_good) auto
        with m show False by (simp add: b_def)
      qed
      note my = merge_yes_good [OF g gb rb br]
      define d where "d = snd (merge r b)"
      have upd: "rs[i := d] = A @ d # B0"
        using ilt by (simp add: A_def B0_def upd_conv_take_nth_drop)
      have e: "Insert rs r = coalesce (A @ d # B0) (length A)"
        using u False lA upd by (simp add: d_def b_def)
      have Ad: "\<forall>a \<in> set A. lo a < lo d" using Ar my(3) by (simp add: d_def)
      have dB0: "\<forall>y \<in> set B0. lo d \<le> lo y"
        using gbB0 good_lo_hi [OF gb] rb my(3) by (fastforce simp: gap_def d_def)
      have gAB0: "\<forall>a \<in> set A. \<forall>y \<in> set B0. gap a y" using gAB by (simp add: Bc)
      show ?thesis unfolding e
        using coalesce_sem [OF rA my(2) [folded d_def] rB0 Ad dB0 gAB0] my(5)
        by (auto simp: AB Bc d_def)
    qed
  qed
qed

subsection \<open>\<open>Size\<close> counts the covered bytes\<close>

lemma Ranges_Size_from_sint:
  assumes "\<forall>x \<in> set rs. 0 \<le> sz x" "0 \<le> sint acc"
    and "sint acc + sum_list (map sz rs) < 9223372036854775808"
  shows "sint (Ranges_Size_from acc rs) = sint acc + sum_list (map sz rs)"
  using assms
proof (induction rs arbitrary: acc)
  case Nil
  then show ?case by simp
next
  case (Cons x xs)
  have nn: "0 \<le> sum_list (map sz xs)" using Cons.prems(1) by (intro sum_list_nonneg) auto
  have b: "sint acc + sz x < 9223372036854775808" "0 \<le> sz x"
    using Cons.prems nn by simp_all
  have a: "sint (acc + Size x) = sint acc + sz x"
    unfolding sz_def using b [unfolded sz_def] Cons.prems(2)
    by (intro sint64_add) simp_all
  show ?case using Cons.IH [of "acc + Size x"] Cons.prems a by simp
qed

lemma RangeSet_sum_card:
  assumes "RangeSet rs"
  shows "sum_list (map sz rs) = int (card (cover rs)) \<and> finite (cover rs) \<and>
         (rs \<noteq> [] \<longrightarrow> cover rs \<subseteq> {lo (hd rs) ..< hi (last rs)})"
  using assms
proof (induction rs)
  case Nil
  then show ?case by simp
next
  case (Cons x xs)
  have gx: "good x" and rxs: "RangeSet xs" and gxs: "\<forall>y \<in> set xs. gap x y"
    using Cons.prems by (auto simp: RangeSet_Cons)
  note ih = Cons.IH [OF rxs]
  have frx: "finite (rng x)" and crx: "int (card (rng x)) = sz x"
    using gx by (auto simp: rng_def good_def hi_def)
  have dis: "rng x \<inter> cover xs = {}"
    using gxs by (fastforce simp: cover_def rng_def gap_def)
  have c: "int (card (cover (x # xs))) = sz x + int (card (cover xs))"
    using frx ih dis crx by (simp add: card_Un_disjoint)
  have b: "cover (x # xs) \<subseteq> {lo (hd (x # xs)) ..< hi (last (x # xs))}"
  proof (cases "xs = []")
    case True
    then show ?thesis by (simp add: rng_def)
  next
    case False
    then have "cover xs \<subseteq> {lo (hd xs) ..< hi (last xs)}" using ih by auto
    moreover have "hi x < lo (hd xs)" using gxs False by (cases xs) (auto simp: gap_def)
    moreover have "lo x < hi x" using gx by (rule good_lo_hi)
    moreover have "lo (hd xs) < hi (last xs)"
    proof -
      have "lo (hd xs) \<in> cover xs"
        using False rxs by (cases xs) (auto simp: RangeSet_Cons rng_def dest: good_lo_hi)
      then show ?thesis using \<open>cover xs \<subseteq> _\<close> by auto
    qed
    ultimately show ?thesis using False by (auto simp: rng_def)
  qed
  show ?case using c ih frx b by simp
qed

lemma RangeSet_Size:
  assumes "RangeSet rs"
  shows "sint (Ranges_Size rs) = int (card (cover rs))"
proof (cases "rs = []")
  case True
  then show ?thesis by (simp add: Ranges_Size_def)
next
  case False
  note s = RangeSet_sum_card [OF assms]
  have "cover rs \<subseteq> {lo (hd rs) ..< hi (last rs)}" using s False by auto
  then have "card (cover rs) \<le> card {lo (hd rs) ..< hi (last rs)}"
    by (intro card_mono) auto
  moreover have "good (hd rs)" "good (last rs)"
    using assms False by (auto intro: RangeSet_good)
  ultimately have "int (card (cover rs)) < 9223372036854775808"
    by (auto simp: good_def valid_def)
  moreover have "\<forall>x \<in> set rs. 0 \<le> sz x"
    using assms by (auto dest: RangeSet_good simp: good_def)
  ultimately show ?thesis
    using s Ranges_Size_from_sint [of rs 0] by (simp add: Ranges_Size_def)
qed

subsection \<open>Range sets are canonical; sequences of inserts\<close>

lemma RangeSet_head:
  assumes "RangeSet (x # xs)"
  shows "\<forall>k \<in> cover (x # xs). lo x \<le> k" and "lo x \<in> cover (x # xs)"
    and "hi x \<notin> cover (x # xs)" and "rng x \<inter> cover xs = {}"
proof -
  have gx: "good x" and gxs: "\<forall>y \<in> set xs. gap x y"
    using assms by (auto simp: RangeSet_Cons)
  note lh = good_lo_hi [OF gx]
  show "\<forall>k \<in> cover (x # xs). lo x \<le> k"
    using gxs lh by (fastforce simp: cover_def rng_def gap_def)
  show "lo x \<in> cover (x # xs)" using lh by (simp add: rng_def)
  show "hi x \<notin> cover (x # xs)" using gxs by (fastforce simp: cover_def rng_def gap_def)
  show "rng x \<inter> cover xs = {}" using gxs by (fastforce simp: cover_def rng_def gap_def)
qed

lemma RangeSet_unique:
  assumes "RangeSet a" "RangeSet b" "cover a = cover b"
  shows "a = b"
  using assms
proof (induction a arbitrary: b)
  case Nil
  show ?case
  proof (cases b)
    case (Cons y ys)
    then show ?thesis using RangeSet_head(2) [of y ys] Nil by auto
  qed simp
next
  case (Cons x xs)
  show ?case
  proof (cases b)
    case Nil
    then show ?thesis using RangeSet_head(2) [of x xs] Cons.prems by auto
  next
    case (Cons y ys)
    note hx = RangeSet_head [OF Cons.prems(1)]
    note hy = RangeSet_head [OF Cons.prems(2) [unfolded Cons]]
    have c: "cover (x # xs) = cover (y # ys)" using Cons.prems(3) Cons by simp
    have gx: "good x" and gy: "good y"
      using Cons.prems Cons by (auto simp: RangeSet_Cons)
    have l: "lo x = lo y"
      using hx(1,2) hy(1,2) unfolding c by (simp add: order_antisym)
    have h: "hi x = hi y"
    proof (rule ccontr)
      assume "hi x \<noteq> hi y"
      then consider "hi x < hi y" | "hi y < hi x" by linarith
      then show False
      proof cases
        case 1
        then have "hi x \<in> rng y" using good_lo_hi [OF gx] l by (simp add: rng_def)
        then show False using hx(3) unfolding c by simp
      next
        case 2
        then have "hi y \<in> rng x" using good_lo_hi [OF gy] l by (simp add: rng_def)
        then show False using hy(3) unfolding c [symmetric] by simp
      qed
    qed
    have xy: "x = y" using l h by (intro Range_eqI) (auto simp: hi_def)
    have "cover xs = cover (x # xs) - rng x" using hx(4) by auto
    also have "\<dots> = cover (y # ys) - rng y" using c xy by simp
    also have "\<dots> = cover ys" using hy(4) by auto
    finally have "xs = ys"
      using Cons.IH [of ys] Cons.prems \<open>b = y # ys\<close> by (simp add: RangeSet_Cons)
    with xy Cons show ?thesis by simp
  qed
qed

lemma foldl_Insert_sem:
  assumes "RangeSet acc" "list_all (\<lambda>r. IsEmpty r \<or> valid r) ins"
  shows "RangeSet (foldl Insert acc ins) \<and> cover (foldl Insert acc ins) = cover acc \<union> cover ins"
  using assms
proof (induction ins arbitrary: acc)
  case Nil
  then show ?case by simp
next
  case (Cons r ins)
  have s: "RangeSet (Insert acc r) \<and> cover (Insert acc r) = cover acc \<union> rng r"
  proof (cases "IsEmpty r")
    case True
    then have "Insert acc r = acc" "rng r = {}" by (simp_all add: Insert_def rng_empty IsEmpty_sz)
    then show ?thesis using Cons.prems by simp
  next
    case False
    then show ?thesis using Cons.prems by (intro Insert_sem) auto
  qed
  show ?case using Cons.IH [of "Insert acc r"] s Cons.prems by auto
qed


lemma RangeSet_members:
  assumes "RangeSet rs"
  shows "list_all (\<lambda>x. \<not> IsEmpty x) rs"
    and "sorted_wrt (\<lambda>a b. Pos a <s Pos b) rs"
    and "\<forall>i. i + 1 < length rs \<longrightarrow> End (rs ! i) <s Pos (rs ! (i + 1))"
proof -
  show "list_all (\<lambda>x. \<not> IsEmpty x) rs"
    using assms by (auto simp: list_all_iff IsEmpty_sz dest: RangeSet_good simp: good_def)
  have "Pos (rs ! i) <s Pos (rs ! j)" if "i < j" "j < length rs" for i j
    using RangeSet_nth_gap [OF assms that] RangeSet_nth_good [OF assms, of i] that
    by (simp add: word_sless_alt lo_def [symmetric] good_def hi_def)
  then show "sorted_wrt (\<lambda>a b. Pos a <s Pos b) rs" by (simp add: sorted_wrt_iff_nth_less)
  show "\<forall>i. i + 1 < length rs \<longrightarrow> End (rs ! i) <s Pos (rs ! (i + 1))"
  proof (intro allI impI)
    fix i assume i: "i + 1 < length rs"
    then have "hi (rs ! i) < lo (rs ! (i + 1))" by (intro RangeSet_nth_gap [OF assms]) auto
    moreover have "valid (rs ! i)" using RangeSet_nth_good [OF assms, of i] i by (simp add: good_def)
    ultimately show "End (rs ! i) <s Pos (rs ! (i + 1))"
      by (simp add: word_sless_alt End_valid lo_def [symmetric])
  qed
qed

text \<open>
  Claim C4, as the code has it. Starting from the empty range set, after any sequence
  of \<open>Insert\<close>s of ranges each of which is empty (\<open>Size \<le> 0\<close>) or valid (position and
  size non-negative, end representable in \<open>int64\<close>) the set satisfies the RangeSet
  invariant: every member is non-empty, the members are sorted by \<open>Pos\<close>, each member
  ends strictly before the next one starts (so members neither overlap nor touch); and
  \<open>Size()\<close> is the number of bytes covered by the inserted ranges, each byte counted
  once.
\<close>

theorem Insert_sequence_invariant:
  assumes "list_all (\<lambda>r. IsEmpty r \<or> valid r) ins"
  shows "RangeSet (foldl Insert [] ins) \<and>
         list_all (\<lambda>x. \<not> IsEmpty x) (foldl Insert [] ins) \<and>
         sorted_wrt (\<lambda>a b. Pos a <s Pos b) (foldl Insert [] ins) \<and>
         (\<forall>i. i + 1 < length (foldl Insert [] ins) \<longrightarrow>
            End (foldl Insert [] ins ! i) <s Pos (foldl Insert [] ins ! (i + 1))) \<and>
         sint (Ranges_Size (foldl Insert [] ins)) = int (card (cover ins))"
proof -
  have s: "RangeSet (foldl Insert [] ins) \<and> cover (foldl Insert [] ins) = cover [] \<union> cover ins"
    using assms by (intro foldl_Insert_sem) simp_all
  then have r: "RangeSet (foldl Insert [] ins)" by simp
  have z: "sint (Ranges_Size (foldl Insert [] ins)) = int (card (cover ins))"
    using RangeSet_Size [OF r] s by simp
  show ?thesis by (intro conjI r RangeSet_members [OF r] z)
qed

theorem Insert_sequence_invariant_witness:
  "list_all (\<lambda>r. IsEmpty r \<or> valid r)
     [\<lparr>Pos = 0, Size = 10\<rparr>, \<lparr>Pos = 20, Size = 10\<rparr>, \<lparr>Pos = 7, Size = - 3\<rparr>, \<lparr>Pos = 10, Size = 10\<rparr>] \<and>
   foldl Insert [] [\<lparr>Pos = 0, Size = 10\<rparr>, \<lparr>Pos = 20, Size = 10\<rparr>, \<lparr>Pos = 7, Size = - 3\<rparr>, \<lparr>Pos = 10, Size = 10\<rparr>]
     = [\<lparr>Pos = 0, Size = 30\<rparr>] \<and>
   RangeSet (foldl Insert [] [\<lparr>Pos = 0, Size = 10\<rparr>, \<lparr>Pos = 20, Size = 10\<rparr>, \<lparr>Pos = 7, Size = - 3\<rparr>, \<lparr>Pos = 10, Size = 10\<rparr>]) \<and>
   sint (Ranges_Size (foldl Insert [] [\<lparr>Pos = 0, Size = 10\<rparr>, \<lparr>Pos = 20, Size = 10\<rparr>, \<lparr>Pos = 7, Size = - 3\<rparr>, \<lparr>Pos = 10, Size = 10\<rparr>]))
     = int (card (cover [\<lparr>Pos = 0, Size = 10\<rparr>, \<lparr>Pos = 20, Size = 10\<rparr>, \<lparr>Pos = 7, Size = - 3\<rparr>, \<lparr>Pos = 10, Size = 10\<rparr>]))"
proof -
  have h: "list_all (\<lambda>r. IsEmpty r \<or> valid r)
     [\<lparr>Pos = 0, Size = 10\<rparr>, \<lparr>Pos = 20, Size = 10\<rparr>, \<lparr>Pos = 7, Size = - 3\<rparr>, \<lparr>Pos = 10, Size = 10\<rparr>]"
    by code_simp
  have e: "foldl Insert [] [\<lparr>Pos = 0, Size = 10\<rparr>, \<lparr>Pos = 20, Size = 10\<rparr>, \<lparr>Pos = 7, Size = - 3\<rparr>, \<lparr>Pos = 10, Size = 10\<rparr>]
     = [\<lparr>Pos = 0, Size = 30\<rparr>]"
    by code_simp
  note t = Insert_sequence_invariant [OF h]
  show ?thesis by (intro conjI h e t [THEN conjunct1] t [THEN conjunct2, THEN conjunct2, THEN conjunct2, THEN conjunct2])
qed


text \<open>
  The sentence of C4 as it is written, for every sequence of inserts, fails where
  \<open>int64\<close> wraps. Inserting \<open>(100, 10)\<close> and then \<open>(50, MaxInt64)\<close>, whose \<open>End()\<close>
  wraps to a negative number, leaves two members that both hold byte 100, and a
  negative \<open>Size()\<close>. With negative positions a merge can wrap the size of a member:
  \<open>(MinInt64, MaxInt64)\<close> and \<open>(-1, MaxInt64)\<close> merge into one member of size \<open>-2\<close>.
\<close>

theorem Insert_sequence_overflow_counterexample:
  "foldl Insert [] [\<lparr>Pos = 100, Size = 10\<rparr>, \<lparr>Pos = 50, Size = 9223372036854775807\<rparr>]
     = [\<lparr>Pos = 50, Size = 9223372036854775807\<rparr>, \<lparr>Pos = 100, Size = 10\<rparr>] \<and>
   100 \<in> rng \<lparr>Pos = 50, Size = 9223372036854775807\<rparr> \<and> 100 \<in> rng \<lparr>Pos = 100, Size = 10\<rparr> \<and>
   \<not> RangeSet (foldl Insert [] [\<lparr>Pos = 100, Size = 10\<rparr>, \<lparr>Pos = 50, Size = 9223372036854775807\<rparr>]) \<and>
   sint (Ranges_Size (foldl Insert [] [\<lparr>Pos = 100, Size = 10\<rparr>, \<lparr>Pos = 50, Size = 9223372036854775807\<rparr>]))
     = - 9223372036854775799 \<and>
   sint (Ranges_Size (foldl Insert [] [\<lparr>Pos = 100, Size = 10\<rparr>, \<lparr>Pos = 50, Size = 9223372036854775807\<rparr>]))
     \<noteq> int (card (cover [\<lparr>Pos = 100, Size = 10\<rparr>, \<lparr>Pos = 50, Size = 9223372036854775807\<rparr>])) \<and>
   foldl Insert [] [\<lparr>Pos = - 9223372036854775808, Size = 9223372036854775807\<rparr>,
                    \<lparr>Pos = - 1, Size = 9223372036854775807\<rparr>]
     = [\<lparr>Pos = - 9223372036854775808, Size = - 2\<rparr>] \<and>
   list_all IsEmpty (foldl Insert [] [\<lparr>Pos = - 9223372036854775808, Size = 9223372036854775807\<rparr>,
                    \<lparr>Pos = - 1, Size = 9223372036854775807\<rparr>])"
proof -
  let ?ins = "[\<lparr>Pos = 100, Size = 10\<rparr>, \<lparr>Pos = 50, Size = 9223372036854775807\<rparr>]"
  let ?neg = "[\<lparr>Pos = - 9223372036854775808, Size = 9223372036854775807\<rparr>,
               \<lparr>Pos = - 1, Size = 9223372036854775807\<rparr>]"
  have a: "foldl Insert [] ?ins
     = [\<lparr>Pos = 50, Size = 9223372036854775807\<rparr>, \<lparr>Pos = 100, Size = 10\<rparr>]" by code_simp
  have b: "100 \<in> rng \<lparr>Pos = 50, Size = 9223372036854775807\<rparr>"
    by (simp add: rng_def lo_def hi_def sz_def)
  have c: "100 \<in> rng \<lparr>Pos = 100, Size = 10\<rparr>"
    by (simp add: rng_def lo_def hi_def sz_def)
  have d: "\<not> RangeSet (foldl Insert [] ?ins)" by code_simp
  have e: "sint (Ranges_Size (foldl Insert [] ?ins)) = - 9223372036854775799" by code_simp
  have f: "sint (Ranges_Size (foldl Insert [] ?ins)) \<noteq> int (card (cover ?ins))"
    unfolding e by simp
  have g: "foldl Insert [] ?neg = [\<lparr>Pos = - 9223372036854775808, Size = - 2\<rparr>]" by code_simp
  have h: "list_all IsEmpty (foldl Insert [] ?neg)" by code_simp
  show ?thesis by (intro conjI a b c d e f g h)
qed

text \<open>
  Inserting a range that starts below zero. The members of the set start at or after
  zero, so the range goes to the front; a merge may wrap the size of the first member,
  but its position and its end stay right, and these are all \<open>merge\<close> looks at.
\<close>

lemma merge_End:
  "End (snd (merge x y)) = (if End x <s Pos y then End y else if End y <s End x then End x else End y)"
  by (simp add: merge_def End_def)

lemma merge_Pos: "fst (merge x y) \<Longrightarrow> Pos (snd (merge x y)) = Pos x"
  by (simp add: merge_def split: if_splits)

lemma merge_End_le:
  assumes "fst (merge x y)"
  shows "End x \<le>s End (snd (merge x y))"
proof -
  have "\<not> End x <s Pos y" using assms by (simp add: merge_def split: if_splits)
  then have "End (snd (merge x y)) = (if End y <s End x then End x else End y)"
    by (simp only: merge_End if_False)
  then show ?thesis by (simp add: word_sle_eq word_sless_alt)
qed

lemma merge_same:
  assumes "Pos y = Pos x" "\<not> End x <s Pos x" "End x \<le>s End y"
  shows "merge x y = (True, y)"
proof -
  have "\<not> End y <s End x" using assms(3) by (simp add: word_sle_eq word_sless_alt)
  then show ?thesis using assms(1,2) by (simp add: merge_def)
qed

lemma absorb_shape:
  "\<exists>d rest. absorb x ys = d # rest \<and> Pos d = Pos x \<and> End x \<le>s End d \<and>
     set rest \<subseteq> set ys \<and> (rest \<noteq> [] \<longrightarrow> \<not> fst (merge d (hd rest)))"
proof (induction ys arbitrary: x)
  case Nil
  show ?case by (simp add: word_sle_eq)
next
  case (Cons y ys)
  show ?case
  proof (cases "fst (merge x y)")
    case False
    then show ?thesis by (simp add: absorb_Cons word_sle_eq del: absorb.simps(2))
  next
    case True
    from Cons.IH [of "snd (merge x y)"] obtain d rest where
      a: "absorb (snd (merge x y)) ys = d # rest" "Pos d = Pos (snd (merge x y))"
         "End (snd (merge x y)) \<le>s End d" "set rest \<subseteq> set ys"
         "rest \<noteq> [] \<longrightarrow> \<not> fst (merge d (hd rest))"
      by blast
    have "End x \<le>s End d"
      using merge_End_le [OF True] a(3) by (simp add: word_sle_eq)
    then show ?thesis using True a merge_Pos [OF True]
      by (auto simp: absorb_Cons simp del: absorb.simps(2))
  qed
qed

lemma absorb_stop: "ys \<noteq> [] \<longrightarrow> \<not> fst (merge x (hd ys)) \<Longrightarrow> absorb x ys = x # ys"
  by (cases ys) (auto simp: absorb_Cons simp del: absorb.simps(2))

lemma search_zero:
  assumes "\<forall>y \<in> set xs. Pos r \<le>s Pos y"
  shows "search xs r = 0"
proof (rule ccontr)
  assume n: "search xs r \<noteq> 0"
  let ?f = "\<lambda>i. Pos r \<le>s Pos (xs ! i)"
  have t: "?f k" if "k < length xs" for k using assms that by simp
  have l: "(\<forall>k. 0 \<le> k \<and> k < search xs r \<longrightarrow> \<not> ?f k) \<and>
           (\<forall>k. search xs r \<le> k \<and> k < length xs \<longrightarrow> ?f k)"
    unfolding search_def sort_Search_def
    by (rule sort_Search_loop_least) (use t in auto)
  have "0 < length xs" using n search_le [of xs r] by (cases xs) auto
  with l n t [of 0] show False by auto
qed

lemma Insert_again:
  assumes ne: "\<not> IsEmpty r" and nw: "\<not> End r <s Pos r"
    and d: "Pos d = Pos r" "End r \<le>s End d"
    and rest: "\<forall>y \<in> set rest. Pos r \<le>s Pos y" "rest \<noteq> [] \<longrightarrow> \<not> fst (merge d (hd rest))"
  shows "Insert (d # rest) r = d # rest"
proof -
  have s: "search (d # rest) r = 0"
    using d(1) rest(1) by (intro search_zero) (auto simp: word_sle_eq)
  have m: "merge r d = (True, d)" using d nw by (intro merge_same) simp_all
  have "Insert (d # rest) r = coalesce ((d # rest)[0 := d]) 0"
    using Insert_unfold [OF ne, of "d # rest"] s m by simp
  also have "\<dots> = absorb d rest" by (simp add: coalesce_Nil)
  also have "\<dots> = d # rest" using rest(2) by (rule absorb_stop)
  finally show ?thesis .
qed

lemma Insert_negative_Pos_shape:
  assumes rs: "RangeSet rs" and r: "lo r < 0" "0 < sz r"
  shows "\<exists>d rest. Insert rs r = d # rest \<and> Pos d = Pos r \<and> End r \<le>s End d \<and>
           set rest \<subseteq> set rs \<and> (rest \<noteq> [] \<longrightarrow> \<not> fst (merge d (hd rest)))"
proof (cases rs)
  case Nil
  have ne: "\<not> IsEmpty r" using r(2) by (simp add: IsEmpty_sz)
  show ?thesis using Nil ne by (simp add: Insert_def word_sle_eq)
next
  case (Cons f tl)
  have ne: "\<not> IsEmpty r" using r(2) by (simp add: IsEmpty_sz)
  have pos: "Pos r \<le>s Pos y" if "y \<in> set rs" for y
    using RangeSet_good [OF rs that] r(1) by (simp add: good_def valid_def word_sle_eq lo_def)
  have s: "search rs r = 0" using pos by (intro search_zero) simp
  have n: "rs \<noteq> []" using Cons by simp
  note u = Insert_unfold [OF ne n, unfolded s]
  show ?thesis
  proof (cases "fst (merge r f)")
    case False
    have "Insert rs r = coalesce (r # rs) 0" using u False Cons by simp
    also have "\<dots> = absorb r rs" by (simp add: coalesce_Nil)
    also have "\<dots> = r # rs" using False Cons by (intro absorb_stop) simp
    finally show ?thesis using False Cons by (simp add: word_sle_eq)
  next
    case True
    have "Insert rs r = coalesce (snd (merge r f) # tl) 0" using u True Cons by simp
    also have "\<dots> = absorb (snd (merge r f)) tl" by (simp add: coalesce_Nil)
    finally have i: "Insert rs r = absorb (snd (merge r f)) tl" .
    from absorb_shape [of "snd (merge r f)" tl] obtain d rest where
      a: "absorb (snd (merge r f)) tl = d # rest" "Pos d = Pos (snd (merge r f))"
         "End (snd (merge r f)) \<le>s End d" "set rest \<subseteq> set tl"
         "rest \<noteq> [] \<longrightarrow> \<not> fst (merge d (hd rest))"
      by blast
    have "End r \<le>s End d" using merge_End_le [OF True] a(3) by (simp add: word_sle_eq)
    then show ?thesis using i a merge_Pos [OF True] Cons by auto
  qed
qed

lemma Insert_idempotent_negative_Pos:
  assumes rs: "RangeSet rs" and r: "lo r < 0" "0 < sz r"
  shows "Insert (Insert rs r) r = Insert rs r"
proof -
  have ne: "\<not> IsEmpty r" using r(2) by (simp add: IsEmpty_sz)
  have er: "sint (End r) = hi r"
    using r sint64_bounds [of "Pos r"] sint64_bounds [of "Size r"]
    by (simp add: End_def hi_def lo_def sz_def sint64_add)
  have nw: "\<not> End r <s Pos r" using r(2) by (simp add: word_sless_alt er hi_def lo_def)
  from Insert_negative_Pos_shape [OF assms] obtain d rest where
    a: "Insert rs r = d # rest" "Pos d = Pos r" "End r \<le>s End d" "set rest \<subseteq> set rs"
       "rest \<noteq> [] \<longrightarrow> \<not> fst (merge d (hd rest))"
    by blast
  have pos: "\<forall>y \<in> set rest. Pos r \<le>s Pos y"
  proof
    fix y assume "y \<in> set rest"
    then have "y \<in> set rs" using a(4) by auto
    from RangeSet_good [OF rs this] r(1) show "Pos r \<le>s Pos y"
      by (simp add: good_def valid_def word_sle_eq lo_def)
  qed
  show ?thesis unfolding a(1) using ne nw a(2,3) pos a(5) by (rule Insert_again)
qed

text \<open>
  Claim C5, as the code has it. Insertion is idempotent where \<open>End()\<close> does not wrap: on
  a range set satisfying the RangeSet invariant, inserting a range \<open>r\<close> with
  \<open>Pos + Size \<le> MaxInt64\<close> twice in succession gives the same range set as inserting it
  once.
\<close>

theorem Insert_idempotent:
  assumes "RangeSet rs" "hi r < 2 ^ 63"
  shows "Insert (Insert rs r) r = Insert rs r"
proof -
  consider (empty) "IsEmpty r" | (neg) "0 < sz r" "lo r < 0" | (valid) "0 < sz r" "0 \<le> lo r"
    by (auto simp: IsEmpty_sz) linarith
  then show ?thesis
  proof cases
    case empty
    then show ?thesis by (simp add: Insert_def)
  next
    case neg
    then show ?thesis using Insert_idempotent_negative_Pos [OF assms(1)] by simp
  next
    case valid
    then have v: "valid r" using assms(2) by (simp add: valid_def)
    note a = Insert_sem [OF assms(1) v]
    then have b: "RangeSet (Insert (Insert rs r) r) \<and>
        cover (Insert (Insert rs r) r) = cover (Insert rs r) \<union> rng r"
      using v by (intro Insert_sem) simp_all
    show ?thesis
      using a b by (intro RangeSet_unique) auto
  qed
qed

theorem Insert_idempotent_witness:
  "RangeSet [\<lparr>Pos = 0, Size = 10\<rparr>, \<lparr>Pos = 20, Size = 10\<rparr>] \<and> hi \<lparr>Pos = 5, Size = 10\<rparr> < 2 ^ 63 \<and>
   Insert (Insert [\<lparr>Pos = 0, Size = 10\<rparr>, \<lparr>Pos = 20, Size = 10\<rparr>] \<lparr>Pos = 5, Size = 10\<rparr>) \<lparr>Pos = 5, Size = 10\<rparr>
     = Insert [\<lparr>Pos = 0, Size = 10\<rparr>, \<lparr>Pos = 20, Size = 10\<rparr>] \<lparr>Pos = 5, Size = 10\<rparr>"
proof -
  have h1: "RangeSet [\<lparr>Pos = 0, Size = 10\<rparr>, \<lparr>Pos = 20, Size = 10\<rparr>]" by code_simp
  have h2: "hi \<lparr>Pos = 5, Size = 10\<rparr> < 2 ^ 63" by (simp add: hi_def lo_def sz_def)
  show ?thesis by (intro conjI h1 h2 Insert_idempotent [OF h1 h2])
qed


text \<open>
  The sentence of C5 as it is written, for every range, fails where \<open>End()\<close> wraps:
  \<open>(50, MaxInt64)\<close> inserted twice into the empty set is there twice, because \<open>merge\<close>
  sees its end before its start.
\<close>

theorem Insert_twice_overflow_counterexample:
  "RangeSet [] \<and>
   Insert [] \<lparr>Pos = 50, Size = 9223372036854775807\<rparr> = [\<lparr>Pos = 50, Size = 9223372036854775807\<rparr>] \<and>
   Insert (Insert [] \<lparr>Pos = 50, Size = 9223372036854775807\<rparr>) \<lparr>Pos = 50, Size = 9223372036854775807\<rparr>
     = [\<lparr>Pos = 50, Size = 9223372036854775807\<rparr>, \<lparr>Pos = 50, Size = 9223372036854775807\<rparr>] \<and>
   Insert (Insert [] \<lparr>Pos = 50, Size = 9223372036854775807\<rparr>) \<lparr>Pos = 50, Size = 9223372036854775807\<rparr>
     \<noteq> Insert [] \<lparr>Pos = 50, Size = 9223372036854775807\<rparr>"
  by code_simp

subsection \<open>\<open>Find\<close>\<close>

lemma lo_eq_Pos: "lo a = lo b \<Longrightarrow> Pos a = Pos b"
  by (auto simp: lo_def intro: signed_word_eqI)

lemma remainder:
  assumes r: "valid r" and c: "lo cur = lo r" "0 < sz cur" "sz cur \<le> sz r"
  defines "nxt \<equiv> \<lparr>Pos = End cur, Size = Size r - Size cur\<rparr>"
  shows "valid cur" and "lo nxt = hi cur" and "hi nxt = hi r" and "valid nxt"
    and "sz nxt = sz r - sz cur"
proof -
  show v: "valid cur" using r c by (simp add: valid_def hi_def)
  have s: "sint (Size r - Size cur) = sz r - sz cur"
    unfolding sz_def using r c sint64_bounds [of "Size r"] unfolding sz_def valid_def
    by (intro sint64_sub) auto
  show l: "lo nxt = hi cur" using End_valid [OF v] by (simp add: nxt_def lo_def)
  show z: "sz nxt = sz r - sz cur" using s by (simp add: nxt_def sz_def)
  show h: "hi nxt = hi r" using l z c by (simp add: hi_def)
  show "valid nxt" using l z h r v c by (simp add: valid_def hi_def)
qed


lemma RangeSet_hi_notin:
  assumes "RangeSet rs" "m \<in> set rs"
  shows "hi m \<notin> cover rs"
proof
  assume "hi m \<in> cover rs"
  then obtain m' where m': "m' \<in> set rs" "hi m \<in> rng m'" by (auto simp: cover_def)
  obtain a b where a: "a < length rs" "rs ! a = m" and b: "b < length rs" "rs ! b = m'"
    using assms(2) m'(1) by (auto simp: in_set_conv_nth)
  have gm: "lo m < hi m" using RangeSet_good [OF assms] by (rule good_lo_hi)
  consider "a < b" | "b < a" | "a = b" by linarith
  then show False
  proof cases
    case 1
    from RangeSet_nth_gap [OF assms(1) 1 b(1)] m'(2) a b show False by (simp add: rng_def)
  next
    case 2
    from RangeSet_nth_gap [OF assms(1) 2 a(1)] m'(2) a b gm show False by (simp add: rng_def)
  next
    case 3
    with a b m'(2) show False by (simp add: rng_def)
  qed
qed

lemma Find_unfold:
  assumes "\<not> IsEmpty r"
  shows "Find rs r =
     (if 0 < search rs r \<and> \<not> IsEmpty (Range_Intersection (rs ! (search rs r - 1)) r)
      then (Range_Intersection (rs ! (search rs r - 1)) r,
            \<lparr>Pos = End (Range_Intersection (rs ! (search rs r - 1)) r),
             Size = Size r - Size (Range_Intersection (rs ! (search rs r - 1)) r)\<rparr>, True)
      else if length rs \<le> search rs r then (r, Range0, False)
      else if IsEmpty (Range_Intersection (rs ! search rs r) r) then (r, Range0, False)
      else if Pos r <s Pos (Range_Intersection (rs ! search rs r) r)
      then (\<lparr>Pos = Pos r, Size = Pos (Range_Intersection (rs ! search rs r) r) - Pos r\<rparr>,
            \<lparr>Pos = End \<lparr>Pos = Pos r, Size = Pos (Range_Intersection (rs ! search rs r) r) - Pos r\<rparr>,
             Size = Size r - (Pos (Range_Intersection (rs ! search rs r) r) - Pos r)\<rparr>, False)
      else (Range_Intersection (rs ! search rs r) r,
            \<lparr>Pos = End (Range_Intersection (rs ! search rs r) r),
             Size = Size r - Size (Range_Intersection (rs ! search rs r) r)\<rparr>, True))"
  using assms by (simp add: Find_def Let_def)

lemma Find_cases:
  assumes rs: "RangeSet rs" and r: "valid r" and ne: "\<not> IsEmpty r"
  shows "(\<exists>m \<in> set rs. lo r \<in> rng m \<and> Find_hit rs r m) \<or>
         (rng r \<inter> cover rs = {} \<and> Find rs r = (r, Range0, False)) \<or>
         (\<exists>f \<in> set rs. lo r < lo f \<and> lo f < hi r \<and> {lo r ..< lo f} \<inter> cover rs = {} \<and>
            Find_gap rs r f)"
proof -
  define i where "i = search rs r"
  have il: "i \<le> length rs" unfolding i_def by (rule search_le)
  have before: "lo (rs ! k) < lo r" if "k < i" for k
    using search_RangeSet(1) [OF rs, of k r] that by (simp add: i_def)
  have after: "lo r \<le> lo (rs ! k)" if "i \<le> k" "k < length rs" for k
    using search_RangeSet(2) [OF rs, of r k] that by (simp add: i_def)
  have gr: "good r" using r ne by (simp add: good_def IsEmpty_sz)
  note u = Find_unfold [OF ne, of rs, folded i_def]
  show ?thesis
  proof (cases "0 < i \<and> lo r < hi (rs ! (i - 1))")
    case True
    define p where "p = rs ! (i - 1)"
    have pin: "p \<in> set rs" using True il by (auto simp: p_def intro!: nth_mem)
    have gp: "good p" using RangeSet_good [OF rs pin] .
    have lp: "lo p < lo r" using before [of "i - 1"] True by (simp add: p_def)
    have hp: "lo r < hi p" using True by (simp add: p_def)
    have h: "hits p r" using lp hp by (simp add: hits_def)
    have vp: "valid p" using gp by (simp add: good_def)
    note ri = Range_Intersection_hit [OF vp r h]
    have l: "lo (Range_Intersection p r) = lo r" using ri(1) lp by simp
    have s: "sz (Range_Intersection p r) = min (hi p) (hi r) - lo r" using ri(2) lp by simp
    have nemp: "\<not> IsEmpty (Range_Intersection p r)"
      using s hp good_lo_hi [OF gr] by (simp add: IsEmpty_sz)
    have "Find rs r = (Range_Intersection p r,
            \<lparr>Pos = End (Range_Intersection p r), Size = Size r - Size (Range_Intersection p r)\<rparr>, True)"
      using u True nemp by (simp add: p_def)
    then have "Find_hit rs r p" using l s by (simp add: Find_hit_def hi_def)
    moreover have "lo r \<in> rng p" using lp hp by (simp add: rng_def)
    ultimately show ?thesis using pin by blast
  next
    case noprev: False
    have pe: "IsEmpty (Range_Intersection (rs ! (i - 1)) r)" if "0 < i"
    proof -
      have pin: "rs ! (i - 1) \<in> set rs" using that il by (auto intro!: nth_mem)
      have "valid (rs ! (i - 1))" using RangeSet_good [OF rs pin] by (simp add: good_def)
      moreover have "\<not> hits (rs ! (i - 1)) r"
        using noprev that before [of "i - 1"] by (simp add: hits_def)
      ultimately show ?thesis using r by (simp add: Range_Intersection_miss)
    qed
    have low: "hi (rs ! k) \<le> lo r" if "k < i" for k
    proof (cases "k = i - 1")
      case True
      then show ?thesis using noprev that by simp
    next
      case False
      then have "hi (rs ! k) < lo (rs ! (i - 1))"
        using that il by (intro RangeSet_nth_gap [OF rs]) auto
      moreover have "lo (rs ! (i - 1)) < lo r" using before [of "i - 1"] that by simp
      ultimately show ?thesis by simp
    qed
    have u': "Find rs r =
      (if length rs \<le> i then (r, Range0, False)
      else if IsEmpty (Range_Intersection (rs ! i) r) then (r, Range0, False)
      else if Pos r <s Pos (Range_Intersection (rs ! i) r)
      then (\<lparr>Pos = Pos r, Size = Pos (Range_Intersection (rs ! i) r) - Pos r\<rparr>,
            \<lparr>Pos = End \<lparr>Pos = Pos r, Size = Pos (Range_Intersection (rs ! i) r) - Pos r\<rparr>,
             Size = Size r - (Pos (Range_Intersection (rs ! i) r) - Pos r)\<rparr>, False)
      else (Range_Intersection (rs ! i) r,
            \<lparr>Pos = End (Range_Intersection (rs ! i) r),
             Size = Size r - Size (Range_Intersection (rs ! i) r)\<rparr>, True))"
      using u pe by auto
    have disj: "{lo r ..< b} \<inter> cover rs = {}"
      if "\<And>k. i \<le> k \<Longrightarrow> k < length rs \<Longrightarrow> b \<le> lo (rs ! k)" for b
    proof -
      have "x \<notin> rng (rs ! k)" if "k < length rs" "lo r \<le> x" "x < b" for x k
        using low [of k] that \<open>\<And>k. i \<le> k \<Longrightarrow> k < length rs \<Longrightarrow> b \<le> lo (rs ! k)\<close> [of k]
        by (cases "k < i") (auto simp: rng_def)
      then show ?thesis by (fastforce simp: cover_def in_set_conv_nth)
    qed
    show ?thesis
    proof (cases "length rs \<le> i")
      case True
      then have "Find rs r = (r, Range0, False)" using u' by simp
      moreover have "rng r \<inter> cover rs = {}"
        using disj [of "hi r"] True by (simp add: rng_def)
      ultimately show ?thesis by simp
    next
      case False
      define f where "f = rs ! i"
      have fin: "f \<in> set rs" using False by (simp add: f_def)
      have gf: "good f" using RangeSet_good [OF rs fin] .
      have vf: "valid f" using gf by (simp add: good_def)
      have rf: "lo r \<le> lo f" using after [of i] False by (simp add: f_def)
      have aft: "lo f \<le> lo (rs ! k)" if "i \<le> k" "k < length rs" for k
        using RangeSet_nth_mono [OF rs that] by (simp add: f_def)
      show ?thesis
      proof (cases "lo f < hi r")
        case nohit: False
        then have "\<not> hits f r"
          using rf good_lo_hi [OF gf] good_lo_hi [OF gr] by (auto simp: hits_def)
        then have "Find rs r = (r, Range0, False)"
          using u' False Range_Intersection_miss [OF vf r] by (simp add: f_def)
        moreover have "rng r \<inter> cover rs = {}"
          using disj [of "hi r"] aft nohit by (fastforce simp: rng_def)
        ultimately show ?thesis by simp
      next
        case True
        then have h: "hits f r" using rf by (simp add: hits_def)
        note ri = Range_Intersection_hit [OF vf r h]
        have l: "lo (Range_Intersection f r) = lo f" using ri(1) rf by simp
        have s: "sz (Range_Intersection f r) = min (hi f) (hi r) - lo f" using ri(2) rf by simp
        have nemp: "\<not> IsEmpty (Range_Intersection f r)"
          using s True good_lo_hi [OF gf] by (simp add: IsEmpty_sz)
        show ?thesis
        proof (cases "lo r < lo f")
          case gap: True
          then have c: "Pos r <s Pos (Range_Intersection f r)"
            using l by (simp add: word_sless_alt lo_def)
          have pf: "Pos (Range_Intersection f r) = Pos f" using l by (rule lo_eq_Pos)
          have "sint (Pos f - Pos r) = sint (Pos f) - sint (Pos r)"
            using gap r vf by (intro sint64_sub) (auto simp: lo_def valid_def hi_def sz_def)
          then have d: "sint (Pos (Range_Intersection f r) - Pos r) = lo f - lo r"
            by (simp add: pf lo_def)
          have "Find rs r =
            (\<lparr>Pos = Pos r, Size = Pos (Range_Intersection f r) - Pos r\<rparr>,
             \<lparr>Pos = End \<lparr>Pos = Pos r, Size = Pos (Range_Intersection f r) - Pos r\<rparr>,
              Size = Size r - (Pos (Range_Intersection f r) - Pos r)\<rparr>, False)"
            using u' False nemp c by (simp add: f_def)
          then have "Find_gap rs r f"
            using d by (simp add: Find_gap_def lo_def hi_def sz_def)
          moreover have "{lo r ..< lo f} \<inter> cover rs = {}" using disj [of "lo f"] aft by simp
          ultimately show ?thesis using fin gap True by blast
        next
          case same: False
          then have e: "lo f = lo r" using rf by simp
          have c: "\<not> Pos r <s Pos (Range_Intersection f r)"
            using l e by (simp add: word_sless_alt lo_def)
          have "Find rs r = (Range_Intersection f r,
            \<lparr>Pos = End (Range_Intersection f r), Size = Size r - Size (Range_Intersection f r)\<rparr>, True)"
            using u' False nemp c by (simp add: f_def)
          then have "Find_hit rs r f" using l s e by (simp add: Find_hit_def hi_def)
          moreover have "lo r \<in> rng f" using e good_lo_hi [OF gf] by (simp add: rng_def)
          ultimately show ?thesis using fin by blast
        qed
      qed
    qed
  qed
qed

lemma valid_Range0 [simp]: "valid Range0" "rng Range0 = {}"
  by (simp_all add: valid_def rng_def)


lemma Find_hit_facts:
  assumes rs: "RangeSet rs" and r: "valid r" and ne: "\<not> IsEmpty r"
    and m: "m \<in> set rs" "lo r \<in> rng m" and h: "Find_hit rs r m"
    and f: "Find rs r = (cur, nxt, present)"
  shows "present" and "cur = Range_Intersection m r" and "lo cur = lo r"
    and "hi cur = min (hi m) (hi r)"
    and "valid cur" and "lo nxt = hi cur" and "hi nxt = hi r" and "valid nxt"
proof -
  show p: "present" and l: "lo cur = lo r" and hc: "hi cur = min (hi m) (hi r)"
    using h f by (simp_all add: Find_hit_def)
  have n: "nxt = \<lparr>Pos = End cur, Size = Size r - Size cur\<rparr>"
    using h f by (simp add: Find_hit_def)
  have gr: "lo r < hi r" using r ne by (simp add: IsEmpty_sz hi_def)
  have s: "0 < sz cur" "sz cur \<le> sz r"
    using hc l m(2) gr by (auto simp: hi_def rng_def)
  note rem = remainder [OF r l s, folded n]
  show "valid cur" "lo nxt = hi cur" "hi nxt = hi r" "valid nxt" by (rule rem)+
  have vm: "valid m" using RangeSet_good [OF rs m(1)] by (simp add: good_def)
  have "hits m r" using m(2) by (simp add: hits_def rng_def)
  note ri = Range_Intersection_hit [OF vm r this]
  show "cur = Range_Intersection m r"
    using ri l hc m(2) by (intro Range_eqI) (auto simp: hi_def rng_def)
qed

lemma Find_gap_facts:
  assumes r: "valid r" and ne: "\<not> IsEmpty r"
    and g: "lo r < lo g" "lo g < hi r" and h: "Find_gap rs r g"
    and f: "Find rs r = (cur, nxt, present)"
  shows "\<not> present" and "lo cur = lo r" and "hi cur = lo g"
    and "valid cur" and "lo nxt = hi cur" and "hi nxt = hi r" and "valid nxt"
proof -
  show p: "\<not> present" and l: "lo cur = lo r" and hc: "hi cur = lo g"
    using h f by (simp_all add: Find_gap_def)
  have n: "nxt = \<lparr>Pos = End cur, Size = Size r - Size cur\<rparr>"
    using h f by (simp add: Find_gap_def)
  have s: "0 < sz cur" "sz cur \<le> sz r"
    using hc l g by (auto simp: hi_def)
  note rem = remainder [OF r l s, folded n]
  show "valid cur" "lo nxt = hi cur" "hi nxt = hi r" "valid nxt" by (rule rem)+
qed




subsection \<open>\<open>Present\<close> and \<open>Intersection\<close>\<close>

lemma Find_step:
  assumes rs: "RangeSet rs" and r: "valid r" and ne: "\<not> IsEmpty r"
    and f: "Find rs r = (cur, nxt, present)"
  shows "valid cur" and "valid nxt" and "sz nxt < sz r"
    and "rng cur \<union> rng nxt = rng r"
    and "present \<Longrightarrow> rng cur \<subseteq> cover rs"
    and "\<not> present \<Longrightarrow> rng cur \<inter> cover rs = {}"
proof -
  have gr: "lo r < hi r" using r ne by (simp add: IsEmpty_sz hi_def)
  consider m where "m \<in> set rs" "lo r \<in> rng m" "Find_hit rs r m"
    | "rng r \<inter> cover rs = {}" "Find rs r = (r, Range0, False)"
    | g where "g \<in> set rs" "lo r < lo g" "lo g < hi r" "{lo r ..< lo g} \<inter> cover rs = {}"
        "Find_gap rs r g"
    using Find_cases [OF rs r ne] by blast
  then have "valid cur \<and> valid nxt \<and> sz nxt < sz r \<and> rng cur \<union> rng nxt = rng r \<and>
    (present \<longrightarrow> rng cur \<subseteq> cover rs) \<and> (\<not> present \<longrightarrow> rng cur \<inter> cover rs = {})"
  proof cases
    case 1
    note hf = Find_hit_facts [OF rs r ne 1 f]
    note l = hf(3) and h = hf(4) and n = hf(6,7)
    have "rng cur \<subseteq> rng m" using l h 1(2) by (auto simp: rng_def)
    then have a: "rng cur \<subseteq> cover rs" using 1(1) by (auto simp: cover_def)
    have b: "sz nxt < sz r" using n l h 1(2) gr by (auto simp: hi_def rng_def)
    have c: "rng cur \<union> rng nxt = rng r"
      using n l h 1(2) gr by (auto simp: rng_def)
    show ?thesis using a b c hf(1,5,8) by simp
  next
    case 2
    have e: "cur = r" "nxt = Range0" "\<not> present" using f 2(2) by simp_all
    show ?thesis using e r 2(1) gr by (simp add: hi_def)
  next
    case 3
    note gf = Find_gap_facts [OF r ne 3(2,3,5) f]
    note l = gf(2) and h = gf(3) and n = gf(5,6)
    have a: "rng cur \<inter> cover rs = {}" using 3(4) l h by (simp add: rng_def)
    have b: "sz nxt < sz r" using n l h 3(2,3) by (auto simp: hi_def)
    have c: "rng cur \<union> rng nxt = rng r"
      using n l h 3(2,3) by (auto simp: rng_def)
    show ?thesis using a b c gf(1,4,7) by simp
  qed
  then show "valid cur" and "valid nxt" and "sz nxt < sz r"
    and "rng cur \<union> rng nxt = rng r"
    and "present \<Longrightarrow> rng cur \<subseteq> cover rs"
    and "\<not> present \<Longrightarrow> rng cur \<inter> cover rs = {}"
    by simp_all
qed

lemma Ranges_Intersection_loop_sem:
  assumes "RangeSet rs" "valid r" "RangeSet acc"
  shows "RangeSet (Ranges_Intersection_loop rs r acc) \<and>
         cover (Ranges_Intersection_loop rs r acc) = cover acc \<union> (rng r \<inter> cover rs)"
  using assms(2,3)
proof (induction "nat (sz r)" arbitrary: r acc rule: less_induct)
  case less
  show ?case
  proof (cases "IsEmpty r")
    case True
    then have "Ranges_Intersection_loop rs r acc = acc"
      by (subst Ranges_Intersection_loop.simps) simp
    then show ?thesis using less.prems True by (simp add: rng_empty IsEmpty_sz)
  next
    case False
    obtain cur nxt present where f: "Find rs r = (cur, nxt, present)"
      by (cases "Find rs r")
    note st = Find_step [OF assms(1) less.prems(1) False f]
    note v = st(1,2) and s = st(3) and u = st(4) and p = st(5,6)
    define acc' where "acc' = (if present then Insert acc cur else acc)"
    have e: "Ranges_Intersection_loop rs r acc = Ranges_Intersection_loop rs nxt acc'"
      using False f by (subst Ranges_Intersection_loop.simps) (simp add: acc'_def)
    have a: "RangeSet acc' \<and> cover acc' = cover acc \<union> (rng cur \<inter> cover rs)"
      using Insert_sem [OF less.prems(2) v(1)] less.prems(2) p
      by (auto simp: acc'_def)
    have m: "nat (sz nxt) < nat (sz r)" using s False by (simp add: IsEmpty_sz)
    from less.hyps [OF m v(2)] a
    have "RangeSet (Ranges_Intersection_loop rs nxt acc') \<and>
          cover (Ranges_Intersection_loop rs nxt acc') = cover acc' \<union> (rng nxt \<inter> cover rs)"
      by simp
    then show ?thesis unfolding e using a u by auto
  qed
qed

lemma Ranges_Intersection_sem:
  assumes "RangeSet rs" "valid r"
  shows "RangeSet (Ranges_Intersection rs r)"
    and "cover (Ranges_Intersection rs r) = rng r \<inter> cover rs"
  using Ranges_Intersection_loop_sem [OF assms, of "[]"] assms(1)
  by (auto simp: Ranges_Intersection_def)

lemma Present_iff_subset:
  assumes rs: "RangeSet rs" and r: "valid r"
  shows "Present rs r \<longleftrightarrow> rng r \<subseteq> cover rs"
proof (cases "IsEmpty r")
  case True
  then show ?thesis by (simp add: Present_def rng_empty IsEmpty_sz)
next
  case ne: False
  have gr: "lo r < hi r" using r ne by (simp add: IsEmpty_sz hi_def)
  have lr: "lo r \<in> rng r" using gr by (simp add: rng_def)
  consider m where "m \<in> set rs" "lo r \<in> rng m" "Find_hit rs r m"
    | "rng r \<inter> cover rs = {}" "Find rs r = (r, Range0, False)"
    | f where "f \<in> set rs" "lo r < lo f" "lo f < hi r" "{lo r ..< lo f} \<inter> cover rs = {}"
        "Find_gap rs r f"
    using Find_cases [OF assms ne] by blast
  then show ?thesis
  proof cases
    case 1
    obtain cur nxt present where f: "Find rs r = (cur, nxt, present)"
      by (cases "Find rs r")
    note hf = Find_hit_facts [OF assms ne 1 f]
    note l = hf(3) and h = hf(4) and n = hf(6,7)
    have "Present rs r \<longleftrightarrow> IsEmpty nxt" using ne f hf(1) by (simp add: Present_def)
    also have "\<dots> \<longleftrightarrow> hi r \<le> hi m" using n h by (auto simp: IsEmpty_sz hi_def)
    also have "\<dots> \<longleftrightarrow> rng r \<subseteq> cover rs"
    proof
      assume "hi r \<le> hi m"
      then have "rng r \<subseteq> rng m" using 1(2) by (auto simp: rng_def)
      then show "rng r \<subseteq> cover rs" using 1(1) by (auto simp: cover_def)
    next
      assume a: "rng r \<subseteq> cover rs"
      show "hi r \<le> hi m"
      proof (rule ccontr)
        assume "\<not> hi r \<le> hi m"
        then have "hi m \<in> rng r" using 1(2) by (auto simp: rng_def)
        with a RangeSet_hi_notin [OF rs 1(1)] show False by auto
      qed
    qed
    finally show ?thesis .
  next
    case 2
    then show ?thesis using ne lr by (auto simp: Present_def)
  next
    case 3
    obtain cur nxt present where f: "Find rs r = (cur, nxt, present)"
      by (cases "Find rs r")
    note gf = Find_gap_facts [OF r ne 3(2,3,5) f]
    have "lo r \<notin> cover rs" using 3(2,4) by auto
    then show ?thesis using ne lr f gf(1) by (auto simp: Present_def)
  qed
qed

text \<open>
  \<open>Present\<close> and \<open>Intersection\<close> on the ranges outside the data model: a range whose end
  wraps, a range that starts below zero, an empty range.
\<close>

lemma End_wraps:
  assumes "0 \<le> lo r" "0 < sz r" "2 ^ 63 \<le> hi r"
  shows "sint (End r) < 0"
proof -
  have b: "hi r < 2 ^ 64 - 1"
    using sint64_bounds [of "Pos r"] sint64_bounds [of "Size r"]
    by (simp add: hi_def lo_def sz_def)
  have "sint (End r) = signed_take_bit 63 (hi r)"
    by (simp add: End_def hi_def lo_def sz_def sint_word_ariths)
  also have "\<dots> \<le> hi r - 2 ^ Suc 63"
    using assms(3) by (intro signed_take_bit_int_less_eq) simp
  finally show ?thesis using b by simp
qed

lemma Range_Intersection_wrapped:
  assumes m: "good m" and r: "0 \<le> lo r" "0 < sz r" "2 ^ 63 \<le> hi r"
  shows "Range_Intersection m r = (if lo m \<le> lo r \<and> lo r < hi m then r else Range0)"
proof -
  have vm: "valid m" using m by (simp add: good_def)
  have e: "sint (End r) < 0" using r by (rule End_wraps)
  have em: "sint (End m) = hi m" using vm by (rule End_valid)
  have pm: "0 \<le> sint (Pos m)" using vm by (simp add: valid_def lo_def)
  have hm: "0 < hi m" using m by (simp add: good_def valid_def hi_def)
  have c1: "\<not> Pos m <s End r" using e pm by (simp add: word_sless_alt)
  have c2: "Pos m \<le>s Pos r \<and> Pos r <s End m \<longleftrightarrow> lo m \<le> lo r \<and> lo r < hi m"
    by (simp add: word_sle_eq word_sless_alt em lo_def)
  have c3: "\<not> End m <s End r" using e em hm by (simp add: word_sless_alt)
  have c4: "Pos m \<le>s Pos r \<Longrightarrow> max64 (Pos m) (Pos r) = Pos r"
    by (auto simp: max64_def word_sle_eq word_sless_alt)
  have c5: "min64 (End m) (End r) = End r" using c3 by (simp add: min64_def)
  have c6: "End r - Pos r = Size r" by (simp add: End_def)
  show ?thesis
    unfolding Range_Intersection_def Let_def
    using c1 c2 c4 c5 c6 by auto
qed

lemma Find_wrapped:
  assumes rs: "RangeSet rs" and r: "0 \<le> lo r" "0 < sz r" "2 ^ 63 \<le> hi r"
  shows "Find rs r = (r, \<lparr>Pos = End r, Size = 0\<rparr>, True) \<or> Find rs r = (r, Range0, False)"
proof -
  have ne: "\<not> IsEmpty r" using r(2) by (simp add: IsEmpty_sz)
  define i where "i = search rs r"
  have il: "i \<le> length rs" unfolding i_def by (rule search_le)
  have ri: "Range_Intersection (rs ! k) r = r \<or> Range_Intersection (rs ! k) r = Range0"
    if "k < length rs" for k
    using Range_Intersection_wrapped [OF RangeSet_nth_good [OF rs that] r] by simp
  note u = Find_unfold [OF ne, of rs, folded i_def]
  show ?thesis
  proof (cases "0 < i \<and> \<not> IsEmpty (Range_Intersection (rs ! (i - 1)) r)")
    case True
    then have "i - 1 < length rs" using il by (cases i) auto
    from ri [OF this] True have e: "Range_Intersection (rs ! (i - 1)) r = r" by auto
    show ?thesis unfolding u using True e by simp
  next
    case a: False
    show ?thesis
    proof (cases "length rs \<le> i \<or> IsEmpty (Range_Intersection (rs ! i) r)")
      case True
      show ?thesis unfolding u using a True by auto
    next
      case False
      then have e: "Range_Intersection (rs ! i) r = r" using ri [of i] by auto
      have b: "\<not> Pos r <s Pos r" by (simp add: word_sless_alt)
      show ?thesis unfolding u using a False b e by auto
    qed
  qed
qed

lemma Ranges_Size_single [simp]: "Ranges_Size [r] = Size r" "Ranges_Size [] = 0"
  by (simp_all add: Ranges_Size_def)

lemma Ranges_Intersection_loop_empty:
  "IsEmpty r \<Longrightarrow> Ranges_Intersection_loop rs r acc = acc"
  by (subst Ranges_Intersection_loop.simps) simp

lemma Ranges_Intersection_loop_step:
  "\<not> IsEmpty r \<Longrightarrow> Find rs r = (cur, nxt, found) \<Longrightarrow>
   Ranges_Intersection_loop rs r acc =
     Ranges_Intersection_loop rs nxt (if found then Insert acc cur else acc)"
  by (subst Ranges_Intersection_loop.simps) simp

lemma Find_Nil: "Find [] r = (r, Range0, False)"
  by (simp add: Find_def Let_def search_def sort_Search_def sort_Search_loop_stop)

lemma Present_wrapped:
  assumes rs: "RangeSet rs" and r: "0 \<le> lo r" "0 < sz r" "2 ^ 63 \<le> hi r"
  shows "Present rs r \<longleftrightarrow> Ranges_Size (Ranges_Intersection rs r) = Size r"
proof -
  have ne: "\<not> IsEmpty r" using r(2) by (simp add: IsEmpty_sz)
  have nz: "Size r \<noteq> 0" using r(2) by (auto simp: sz_def)
  have e0: "IsEmpty \<lparr>Pos = End r, Size = 0\<rparr>" by (simp add: IsEmpty_def)
  from Find_wrapped [OF rs r] show ?thesis
  proof
    assume f: "Find rs r = (r, \<lparr>Pos = End r, Size = 0\<rparr>, True)"
    then have n: "rs \<noteq> []" using Find_Nil [of r] by auto
    have p: "Present rs r" using ne f e0 by (simp add: Present_def)
    have "Ranges_Intersection_loop rs r [] = Insert [] r"
      using Ranges_Intersection_loop_step [OF ne f, of "[]"]
      by (simp add: Ranges_Intersection_loop_empty [OF e0])
    also have "\<dots> = [r]" using ne by (simp add: Insert_def)
    finally show ?thesis using p n by (simp add: Ranges_Intersection_def)
  next
    assume f: "Find rs r = (r, Range0, False)"
    have p: "\<not> Present rs r" using ne f by (simp add: Present_def)
    have "Ranges_Intersection_loop rs r [] = []"
      using Ranges_Intersection_loop_step [OF ne f, of "[]"]
      by (simp add: Ranges_Intersection_loop_empty)
    then have "Ranges_Intersection rs r = []" by (simp add: Ranges_Intersection_def)
    then show ?thesis using p nz by simp
  qed
qed

lemma Present_negative_Pos:
  assumes rs: "RangeSet rs" and r: "lo r < 0" "0 < sz r"
  shows "Present rs r \<longleftrightarrow> Ranges_Size (Ranges_Intersection rs r) = Size r"
proof (cases "rs = []")
  case True
  have ne: "\<not> IsEmpty r" using r(2) by (simp add: IsEmpty_sz)
  have nz: "Size r \<noteq> 0" using r(2) by (auto simp: sz_def)
  show ?thesis using True ne nz by (simp add: Present_def Find_Nil Ranges_Intersection_def)
next
  case n: False
  have ne: "\<not> IsEmpty r" using r(2) by (simp add: IsEmpty_sz)
  have nz: "Size r \<noteq> 0" using r(2) by (auto simp: sz_def)
  have i0: "search rs r = 0"
  proof (rule ccontr)
    assume "search rs r \<noteq> 0"
    then have s: "0 < search rs r" by simp
    then have "lo (rs ! 0) < lo r" by (rule search_RangeSet(1) [OF rs])
    moreover have "good (rs ! 0)" using n by (intro RangeSet_nth_good [OF rs]) simp
    ultimately show False using r(1) by (simp add: good_def valid_def)
  qed
  define f where "f = rs ! 0"
  have gf: "good f" unfolding f_def using n by (intro RangeSet_nth_good [OF rs]) simp
  have vf: "valid f" using gf by (simp add: good_def)
  have lf: "0 \<le> lo f" using vf by (simp add: valid_def)
  have er: "sint (End r) = hi r"
    using r sint64_bounds [of "Pos r"] sint64_bounds [of "Size r"]
    by (simp add: End_def hi_def lo_def sz_def sint64_add)
  have ef: "sint (End f) = hi f" using vf by (rule End_valid)
  note u = Find_unfold [OF ne, of rs, unfolded i0, folded f_def, simplified]
  have c2: "\<not> (Pos f \<le>s Pos r)" using lf r(1) by (simp add: word_sle_eq lo_def)
  have c1: "Pos r \<le>s Pos f" using lf r(1) by (simp add: word_sle_eq lo_def)
  have c3: "Pos f <s End r \<longleftrightarrow> lo f < hi r" by (simp add: word_sless_alt er lo_def)
  have mx: "max64 (Pos f) (Pos r) = Pos f"
    using lf r(1) by (simp add: max64_def word_sless_alt lo_def)
  have RI: "Range_Intersection f r =
      (if lo f < hi r then \<lparr>Pos = Pos f, Size = min64 (End f) (End r) - Pos f\<rparr> else Range0)"
    unfolding Range_Intersection_def Let_def using c1 c2 c3 mx by simp
  show ?thesis
  proof (cases "lo f < hi r")
    case False
    then have fd: "Find rs r = (r, Range0, False)" using u n RI by simp
    have p: "\<not> Present rs r" using ne fd by (simp add: Present_def)
    have "Ranges_Intersection_loop rs r [] = []"
      using Ranges_Intersection_loop_step [OF ne fd, of "[]"]
      by (simp add: Ranges_Intersection_loop_empty)
    then show ?thesis using p nz n by (simp add: Ranges_Intersection_def)
  next
    case True
    define nxt where "nxt = \<lparr>Pos = Pos f, Size = Size r - (Pos f - Pos r)\<rparr>"
    have d: "sint (Pos f - Pos r) = lo f - lo r"
      unfolding lo_def
      using True lf r sint64_bounds [of "Size r"]
      by (intro sint64_sub) (auto simp: lo_def hi_def sz_def)
    have sm: "sint (min64 (End f) (End r) - Pos f) = min (hi f) (hi r) - lo f"
    proof -
      have "sint (min64 (End f) (End r) - Pos f) = sint (min64 (End f) (End r)) - sint (Pos f)"
        using lf True good_lo_hi [OF gf] vf sint64_bounds [of "Size r"] r
        by (intro sint64_sub) (auto simp: sint_min64 ef er lo_def valid_def hi_def sz_def)
      then show ?thesis by (simp add: sint_min64 ef er lo_def)
    qed
    have nemp: "\<not> IsEmpty (Range_Intersection f r)"
      using True good_lo_hi [OF gf] sm by (simp add: RI IsEmpty_sz sz_def)
    have lt: "Pos r <s Pos (Range_Intersection f r)"
      using True lf r(1) by (simp add: RI word_sless_alt lo_def)
    have pe: "Pos r + (Pos f - Pos r) = Pos f" by simp
    have fd: "Find rs r = (\<lparr>Pos = Pos r, Size = Pos f - Pos r\<rparr>, nxt, False)"
      using u n nemp lt True by (simp add: RI End_def nxt_def)
    have p: "\<not> Present rs r" using ne fd by (simp add: Present_def)
    have sn: "sz nxt = hi r - lo f"
    proof -
      have "sint (Size r - (Pos f - Pos r)) = sint (Size r) - sint (Pos f - Pos r)"
        using True lf r sint64_bounds [of "Size r"] d
        by (intro sint64_sub) (auto simp: lo_def hi_def sz_def)
      then show ?thesis using d by (simp add: nxt_def sz_def hi_def lo_def)
    qed
    have ln: "lo nxt = lo f" by (simp add: nxt_def lo_def)
    have vn: "valid nxt"
      using sn ln lf True sint64_bounds [of "Pos r"] sint64_bounds [of "Size r"] r
      by (simp add: valid_def hi_def lo_def sz_def)
    have l: "Ranges_Intersection_loop rs r [] = Ranges_Intersection_loop rs nxt []"
      using Ranges_Intersection_loop_step [OF ne fd, of "[]"] by simp
    note sem = Ranges_Intersection_loop_sem [OF rs vn, of "[]", simplified]
    have "sint (Ranges_Size (Ranges_Intersection_loop rs nxt [])) = int (card (rng nxt \<inter> cover rs))"
      using RangeSet_Size [of "Ranges_Intersection_loop rs nxt []"] sem by simp
    also have "\<dots> \<le> int (card (rng nxt))"
      by (intro card_mono iffD2 [OF of_nat_le_iff]) (auto simp: rng_def)
    also have "\<dots> = sz nxt" using sn True ln by (simp add: rng_def hi_def)
    also have "\<dots> < sz r" using sn lf r(1) by (simp add: hi_def)
    finally have "Ranges_Size (Ranges_Intersection_loop rs nxt []) \<noteq> Size r"
      by (auto simp: sz_def)
    then show ?thesis using p n l by (simp add: Ranges_Intersection_def)
  qed
qed

lemma Present_empty:
  assumes "sz r = 0"
  shows "Present rs r \<longleftrightarrow> Ranges_Size (Ranges_Intersection rs r) = Size r"
proof -
  have e: "IsEmpty r" using assms by (simp add: IsEmpty_sz)
  have z: "Size r = 0" by (rule signed_word_eqI) (use assms in \<open>simp add: sz_def\<close>)
  show ?thesis
    using e z by (simp add: Present_def Ranges_Intersection_def Ranges_Intersection_loop_empty)
qed

text \<open>
  Claim C6, as the code has it. On a range set satisfying the RangeSet invariant and a
  range \<open>r\<close> with \<open>r.Size \<ge> 0\<close>, \<open>Present(r)\<close> is true if and only if
  \<open>Intersection(r).Size()\<close> equals \<open>r.Size\<close>.
\<close>

theorem Present_iff_Intersection_Size:
  assumes "RangeSet rs" "0 \<le>s Size r"
  shows "Present rs r \<longleftrightarrow> Ranges_Size (Ranges_Intersection rs r) = Size r"
proof -
  have s: "0 \<le> sz r" using assms(2) by (simp add: word_sle_eq sz_def)
  consider (empty) "sz r = 0" | (neg) "0 < sz r" "lo r < 0"
    | (wrapped) "0 < sz r" "0 \<le> lo r" "2 ^ 63 \<le> hi r"
    | (valid) "0 < sz r" "0 \<le> lo r" "hi r < 2 ^ 63"
    using s by linarith
  then show ?thesis
  proof cases
    case empty
    then show ?thesis by (rule Present_empty)
  next
    case neg
    then show ?thesis using Present_negative_Pos [OF assms(1)] by simp
  next
    case wrapped
    then show ?thesis using Present_wrapped [OF assms(1)] by simp
  next
    case valid
    then have v: "valid r" by (simp add: valid_def)
    note i = Ranges_Intersection_sem [OF assms(1) v]
    have "Ranges_Size (Ranges_Intersection rs r) = Size r \<longleftrightarrow>
          sint (Ranges_Size (Ranges_Intersection rs r)) = sz r"
      unfolding sz_def by (auto intro: signed_word_eqI)
    also have "\<dots> \<longleftrightarrow> int (card (rng r \<inter> cover rs)) = sz r"
      using RangeSet_Size [OF i(1)] i(2) by simp
    also have "\<dots> \<longleftrightarrow> card (rng r \<inter> cover rs) = card (rng r)"
      using v by (auto simp: rng_def valid_def hi_def)
    also have "\<dots> \<longleftrightarrow> rng r \<subseteq> cover rs"
    proof
      assume "card (rng r \<inter> cover rs) = card (rng r)"
      then have "rng r \<inter> cover rs = rng r"
        by (intro card_subset_eq) (auto simp: rng_def)
      then show "rng r \<subseteq> cover rs" by auto
    next
      assume "rng r \<subseteq> cover rs"
      then have "rng r \<inter> cover rs = rng r" by auto
      then show "card (rng r \<inter> cover rs) = card (rng r)" by simp
    qed
    finally show ?thesis using Present_iff_subset [OF assms(1) v] by simp
  qed
qed

theorem Present_iff_Intersection_Size_witness:
  "RangeSet [\<lparr>Pos = 0, Size = 10\<rparr>, \<lparr>Pos = 20, Size = 10\<rparr>] \<and> 0 \<le>s Size \<lparr>Pos = 5, Size = 20\<rparr> \<and>
   (Present [\<lparr>Pos = 0, Size = 10\<rparr>, \<lparr>Pos = 20, Size = 10\<rparr>] \<lparr>Pos = 5, Size = 20\<rparr> \<longleftrightarrow>
    Ranges_Size (Ranges_Intersection [\<lparr>Pos = 0, Size = 10\<rparr>, \<lparr>Pos = 20, Size = 10\<rparr>] \<lparr>Pos = 5, Size = 20\<rparr>)
      = Size \<lparr>Pos = 5, Size = 20\<rparr>)"
proof -
  have h1: "RangeSet [\<lparr>Pos = 0, Size = 10\<rparr>, \<lparr>Pos = 20, Size = 10\<rparr>]" by code_simp
  have h2: "0 \<le>s Size \<lparr>Pos = 5, Size = 20\<rparr>" by code_simp
  show ?thesis by (intro conjI h1 h2 Present_iff_Intersection_Size [OF h1 h2])
qed


text \<open>
  The sentence of C6 as it is written, for every range, fails on a range of negative
  size: \<open>Present\<close> is true of every range that \<open>IsEmpty\<close> admits, and the intersection
  is empty, of size 0.
\<close>

theorem Present_negative_size_counterexample:
  "RangeSet [\<lparr>Pos = 0, Size = 10\<rparr>] \<and>
   Present [\<lparr>Pos = 0, Size = 10\<rparr>] \<lparr>Pos = 3, Size = - 1\<rparr> \<and>
   Ranges_Intersection [\<lparr>Pos = 0, Size = 10\<rparr>] \<lparr>Pos = 3, Size = - 1\<rparr> = [] \<and>
   Ranges_Size (Ranges_Intersection [\<lparr>Pos = 0, Size = 10\<rparr>] \<lparr>Pos = 3, Size = - 1\<rparr>) = 0 \<and>
   Ranges_Size (Ranges_Intersection [\<lparr>Pos = 0, Size = 10\<rparr>] \<lparr>Pos = 3, Size = - 1\<rparr>)
     \<noteq> Size \<lparr>Pos = 3, Size = - 1\<rparr>"
  by code_simp


section \<open>Package vfs: the file node and the read/write handle\<close>

subsection \<open>Errors, flags, configuration\<close>

text \<open>
  Go's \<open>error\<close> values: the VFS's own error numbers, the errors of the collaborators
  the code tests for (\<open>os.IsNotExist\<close>, \<open>fs.ErrorObjectNotFound\<close>,
  \<open>fs.ErrorDirNotFound\<close>), any other error of a collaborator, and
  \<open>errors.Wrap(err, msg)\<close>. A \<open>nil\<close> error is \<open>None\<close>.
\<close>

datatype error =
    EEXIST | ECLOSED | EBADF | EINVAL | EPERM | EROFS | ENOENT | ENOSYS
  | ErrNotExist | ErrorObjectNotFound | ErrorDirNotFound
  | ErrOther string
  | Wrap string error

fun Cause :: "error \<Rightarrow> error" where
  "Cause (Wrap msg e) = Cause e"
| "Cause e = e"

definition IsNotExist :: "error \<Rightarrow> bool" where
  "IsNotExist e = (e = ErrNotExist)"

text \<open>
  Modelled from the spec: the open flags are those of Go's \<open>os\<close> package, which is not
  part of the sources; the values are the ones of Linux. \<open>accessModeMask\<close> is
  \<open>O_RDONLY | O_WRONLY | O_RDWR\<close>. Flags are Go \<open>int\<close>s, used bitwise only.
\<close>

definition O_RDONLY :: int where "O_RDONLY = 0"
definition O_WRONLY :: int where "O_WRONLY = 1"
definition O_RDWR :: int where "O_RDWR = 2"
definition O_CREATE :: int where "O_CREATE = 64"
definition O_EXCL :: int where "O_EXCL = 128"
definition O_TRUNC :: int where "O_TRUNC = 512"
definition O_APPEND :: int where "O_APPEND = 1024"

definition accessModeMask :: int where
  "accessModeMask = (O_RDONLY OR O_WRONLY OR O_RDWR)"

text \<open>
  Modelled from the spec: \<open>vfscommon.CacheMode\<close>, one of Off, Minimal, Writes, Full,
  strictly ordered.
\<close>

datatype CacheMode = CacheModeOff | CacheModeMinimal | CacheModeWrites | CacheModeFull

fun mode_rank :: "CacheMode \<Rightarrow> nat" where
  "mode_rank CacheModeOff = 0"
| "mode_rank CacheModeMinimal = 1"
| "mode_rank CacheModeWrites = 2"
| "mode_rank CacheModeFull = 3"

subsection \<open>State\<close>

text \<open>
  A remote object (\<open>fs.Object\<close>), as far as the code reads it. A \<open>Handle\<close> in a file's
  writers list is a pointer with its dynamic type: the address of an \<open>RWFileHandle\<close> or
  of a write-only handle.
\<close>

record Object =
  Remote :: string
  ObjSize :: int

datatype Handle = RWFileHandleAt nat | WriteFileHandleAt nat

fun isRWFileHandle :: "Handle \<Rightarrow> bool" where
  "isRWFileHandle (RWFileHandleAt a) = True"
| "isRWFileHandle (WriteFileHandleAt a) = False"

text \<open>
  The fields of \<open>File\<close> (\<open>obj\<close> is the field \<open>o\<close>, \<open>fsize\<close> the field \<open>size\<close>).
  \<open>pendingModTime\<close> is \<open>None\<close> for the zero time. \<open>pendingRenameFun\<close> records whether the
  closure is set; what the closure does when run comes from the environment, see
  \<open>applyPendingRename\<close>. The mutexes, the inode and \<open>sys\<close> are left out.
\<close>

record File =
  dPath :: string
  leaf :: string
  obj :: "Object option"
  fsize :: int
  rwOpenCount :: int
  writers :: "Handle list"
  nwriters :: int
  readWriters :: int
  readWriterClosing :: bool
  modified :: bool
  pendingModTime :: "int option"
  pendingRenameFun :: bool
  appendMode :: bool

text \<open>
  The fields of \<open>RWFileHandle\<close>; \<open>addr\<close> is the handle's address, \<open>fd\<close> tells whether
  the \<open>*os.File\<close> is set. \<open>fh.file\<close> and \<open>fh.d\<close> are the file node \<open>fnode\<close> and the directory of
  the state below.
\<close>

record RWFileHandle =
  addr :: nat
  fd :: bool
  offset :: int
  flags :: int
  closed :: bool
  opened :: bool
  writeCalled :: bool
  changed :: bool

text \<open>
  What the operations on one file see of the VFS: the file node, the cache's
  open-refcount per path, whether the parent directory lists the file
  (\<open>d.addObject(f)\<close>), and the options \<open>ReadOnly\<close> and \<open>CacheMode\<close>.
\<close>

record VFS =
  fnode :: File
  cache_opens :: "string \<Rightarrow> int"
  dir_listed :: bool
  ReadOnly :: bool
  CacheMode :: CacheMode

text \<open>
  The collaborators (cache storage, local file system, remote) are outside the sources.
  Each call of an operation takes the results of its external calls from an
  environment; the theorems hold for every environment.
\<close>

record env =
  cache_Mkdir :: "error option"
  cache_Check :: "error option"
  cache_Fetch :: "error option"
  cache_Store :: "error + Object"
  cache_Exists :: bool
  OpenFile_existing :: "error option"
  OpenFile_final :: "error option"
  WriteFile :: "error option"
  GOOS_windows :: bool
  os_Stat :: "error option"
  os_Truncate :: "error option"
  fd_Stat :: "error + int"
  fd_Close :: "error option"
  fd_Truncate :: "error option"
  rename_obj :: "Object option"
  rename_pending :: bool
  newReadFileHandle :: "error + nat"
  newWriteFileHandle :: "error + nat"
  write_handle_Truncate :: "error option"
  write_handle_Close :: "error option"
  read_handle_Truncate :: "error option"
  read_handle_Close :: "error option"

subsection \<open>The file node (src, \<open>File\<close>)\<close>

text \<open>\<open>path.Join\<close> of Go's standard library, on two clean components.\<close>

definition path_Join :: "string \<Rightarrow> string \<Rightarrow> string" where
  "path_Join a b = (if a = [] then b else if b = [] then a else a @ ''/'' @ b)"

definition Path :: "File \<Rightarrow> string" where
  "Path f = path_Join (dPath f) (leaf f)"

definition exists :: "File \<Rightarrow> bool" where
  "exists f = (obj f \<noteq> None)"

definition writingInProgress :: "File \<Rightarrow> bool" where
  "writingInProgress f = (obj f = None \<or> length (writers f) \<noteq> 0 \<or> readWriterClosing f)"

text \<open>
  \<open>applyPendingRename\<close>: nothing when no rename is pending or writing is in progress;
  otherwise the closure runs. The closure (built by \<open>File.rename\<close>) calls the remote
  and writes \<open>f.o\<close> and \<open>f.pendingRenameFun\<close> only; the values it leaves there are the
  environment's.
\<close>

definition applyPendingRename :: "env \<Rightarrow> File \<Rightarrow> File" where
  "applyPendingRename e f =
     (if \<not> pendingRenameFun f \<or> writingInProgress f then f
      else f\<lparr>obj := rename_obj e, pendingRenameFun := rename_pending e\<rparr>)"

definition addWriter :: "Handle \<Rightarrow> File \<Rightarrow> File" where
  "addWriter h f =
     (let f1 = f\<lparr>writers := writers f @ [h], nwriters := nwriters f + 1\<rparr>
      in if isRWFileHandle h then f1\<lparr>readWriters := readWriters f1 + 1\<rparr> else f1)"

text \<open>
  \<open>delWriter\<close>: the first occurrence of \<open>h\<close> is cut out of \<open>writers\<close> if there is one;
  the rest runs whether or not it was found. The deferred \<open>applyPendingRename\<close> runs
  last.
\<close>

definition delWriter :: "env \<Rightarrow> Handle \<Rightarrow> bool \<Rightarrow> File \<Rightarrow> bool \<times> File" where
  "delWriter e h modifiedCacheFile f =
     (let f1 = (if h \<in> set (writers f)
                then f\<lparr>writers := remove1 h (writers f), nwriters := nwriters f - 1\<rparr>
                else f);
          f2 = (if isRWFileHandle h then f1\<lparr>readWriters := readWriters f1 - 1\<rparr> else f1);
          f3 = f2\<lparr>readWriterClosing := True\<rparr>;
          f4 = (if modifiedCacheFile then f3\<lparr>modified := True\<rparr> else f3);
          lastWriterAndModified = (length (writers f4) = 0 \<and> modified f4);
          f5 = (if lastWriterAndModified then f4\<lparr>modified := False\<rparr> else f4)
      in (lastWriterAndModified, applyPendingRename e f5))"

definition addRWOpen :: "File \<Rightarrow> File" where
  "addRWOpen f = f\<lparr>rwOpenCount := rwOpenCount f + 1\<rparr>"

definition delRWOpen :: "File \<Rightarrow> File" where
  "delRWOpen f = f\<lparr>rwOpenCount := rwOpenCount f - 1\<rparr>"

definition rwOpens :: "File \<Rightarrow> int" where
  "rwOpens f = rwOpenCount f"

definition finishWriterClose :: "env \<Rightarrow> File \<Rightarrow> File" where
  "finishWriterClose e f = applyPendingRename e (f\<lparr>readWriterClosing := False\<rparr>)"

definition setSize :: "int \<Rightarrow> File \<Rightarrow> File" where
  "setSize n f = f\<lparr>fsize := n\<rparr>"

text \<open>
  \<open>setObject\<close>: \<open>_applyPendingModTime\<close> leaves \<open>pendingModTime\<close> zero (its other effects
  are on the cache and the remote); then the directory lists the file.
\<close>

definition setObject :: "Object \<Rightarrow> VFS \<Rightarrow> VFS" where
  "setObject ob st = st\<lparr>fnode := (fnode st)\<lparr>obj := Some ob, pendingModTime := None\<rparr>,
                         dir_listed := True\<rparr>"

text \<open>
  Modelled from the spec: the cache facade's \<open>Open(path)\<close> and \<open>Close(path)\<close> are
  refcounted open bookkeeping, and \<open>Opens(path)\<close> is the count.
\<close>

definition cache_Open :: "string \<Rightarrow> VFS \<Rightarrow> VFS" where
  "cache_Open p st = st\<lparr>cache_opens := (cache_opens st)(p := cache_opens st p + 1)\<rparr>"

definition cache_Close :: "string \<Rightarrow> VFS \<Rightarrow> VFS" where
  "cache_Close p st = st\<lparr>cache_opens := (cache_opens st)(p := cache_opens st p - 1)\<rparr>"

definition cache_Opens :: "string \<Rightarrow> VFS \<Rightarrow> int" where
  "cache_Opens p st = cache_opens st p"

subsection \<open>The read/write handle (src, \<open>RWFileHandle\<close>)\<close>

text \<open>
  \<open>openPending(truncate)\<close> (the parameter is \<open>trunc\<close> here) returns the error and the
  new handle and state. After the test of \<open>fh.opened\<close> it locks \<open>fh.file.muRW\<close> for the rest
  of its body. \<open>sync.Mutex\<close> is not reentrant, so the function is modelled once for each
  of the two situations it is called in: \<open>openPending\<close> for the callers that do not hold
  \<open>muRW\<close> (\<open>newRWFileHandle\<close>, \<open>_readAt\<close>, \<open>_writeAt\<close>, \<open>Seek\<close>, \<open>Truncate\<close>), and
  \<open>openPending_muRW_held\<close> further down for \<open>flushWrites\<close>, whose callers hold it.

  The local \<open>cacheFileOpenFlags\<close> only reaches the external \<open>file.OpenFile\<close> and is not
  tracked. The first part is the branch that reads an existing cache file: it returns the
  error to return at once, or whether \<open>fd\<close> is set.
\<close>

definition openPending_existing ::
  "env \<Rightarrow> RWFileHandle \<times> VFS \<Rightarrow> (error + bool) \<times> RWFileHandle \<times> VFS" where
  "openPending_existing e = (\<lambda>(fh, st).
     let ob = obj (fnode st) in
     case (if ob \<noteq> None \<and> rwOpens (fnode st) = 0 then cache_Check e else None) of
       Some err \<Rightarrow> (Inl (Wrap ''open RW handle failed to check cache file'' err), fh, st)
     | None \<Rightarrow>
        (case OpenFile_existing e of
           None \<Rightarrow> (Inr True, fh, st)
         | Some err \<Rightarrow>
            if IsNotExist err then
              (let err1 = (if ob \<noteq> None then cache_Fetch e else Some err) in
               case err1 of
                 None \<Rightarrow> (Inr False, fh, st)
               | Some err2 \<Rightarrow>
                  if ob \<noteq> None \<and> Cause err2 \<noteq> ErrorObjectNotFound
                       \<and> Cause err2 \<noteq> ErrorDirNotFound
                  then (Inl (Wrap ''open RW handle failed to cache file'' err2), fh, st)
                  else if flags fh AND O_CREATE \<noteq> 0
                  then (Inr False, fh\<lparr>changed := True\<rparr>, st\<lparr>fnode := setSize 0 (fnode st)\<rparr>)
                  else (Inl (Wrap ''open RW handle failed to cache file'' err2), fh, st))
            else (Inl (Wrap ''cache open file failed'' err), fh, st)))"

text \<open>The truncating branch: it returns the error to return at once, if any.\<close>

definition openPending_truncate ::
  "env \<Rightarrow> RWFileHandle \<times> VFS \<Rightarrow> error option \<times> RWFileHandle \<times> VFS" where
  "openPending_truncate e = (\<lambda>(fh, st).
     let st1 = st\<lparr>fnode := setSize 0 (fnode st)\<rparr>;
         fh1 = fh\<lparr>changed := True\<rparr> in
     case (if flags fh AND O_CREATE = 0 \<and> exists (fnode st1) then WriteFile e else None) of
       Some err \<Rightarrow> (Some (Wrap ''cache open failed to create zero length file'' err), fh1, st1)
     | None \<Rightarrow>
        (case (if GOOS_windows e \<and> flags fh AND O_APPEND \<noteq> 0 \<and> os_Stat e = None
               then os_Truncate e else None) of
           Some err \<Rightarrow> (Some (Wrap ''cache open failed to truncate'' err), fh1, st1)
         | None \<Rightarrow> (None, fh1, st1)))"

definition openPending ::
  "env \<Rightarrow> bool \<Rightarrow> RWFileHandle \<times> VFS \<Rightarrow> error option \<times> RWFileHandle \<times> VFS" where
  "openPending e trunc = (\<lambda>(fh, st).
     if opened fh then (None, fh, st)
     else
       (case (if flags fh AND O_TRUNC = 0 \<and> \<not> trunc
              then openPending_existing e (fh, st)
              else (case openPending_truncate e (fh, st) of
                      (Some err, fh1, st1) \<Rightarrow> (Inl err, fh1, st1)
                    | (None, fh1, st1) \<Rightarrow> (Inr False, fh1, st1))) of
          (Inl err, fh1, st1) \<Rightarrow> (Some err, fh1, st1)
        | (Inr fd_set, fh1, st1) \<Rightarrow>
           (case (if \<not> fd_set then OpenFile_final e else None) of
              Some err \<Rightarrow> (Some (Wrap ''cache open file failed'' err), fh1, st1)
            | None \<Rightarrow>
               (None, fh1\<lparr>fd := True, opened := True\<rparr>,
                st1\<lparr>fnode := addRWOpen (fnode st1), dir_listed := True\<rparr>))))"

text \<open>
  \<open>newRWFileHandle(d, f, flags)\<close>; \<open>a\<close> is the address of the new handle. On the error
  of \<open>openPending\<close> the handle is dropped after \<open>delWriter\<close>.
\<close>

definition new_handle :: "nat \<Rightarrow> int \<Rightarrow> RWFileHandle" where
  "new_handle a fl = \<lparr>addr = a, fd = False, offset = 0, flags = fl, closed = False,
                       opened = False, writeCalled = False, changed = False\<rparr>"

definition newRWFileHandle :: "env \<Rightarrow> nat \<Rightarrow> int \<Rightarrow> VFS \<Rightarrow> (error + RWFileHandle) \<times> VFS" where
  "newRWFileHandle e a fl st =
     (if fl AND (O_CREATE OR O_EXCL) = (O_CREATE OR O_EXCL) \<and> exists (fnode st)
      then (Inl EEXIST, st)
      else
        (let fh = new_handle a fl;
             st1 = cache_Open (Path (fnode st)) st
         in case cache_Mkdir e of
              Some err \<Rightarrow>
                (Inl (Wrap ''open RW handle failed to make cache directory'' err),
                 cache_Close (Path (fnode st1)) st1)
            | None \<Rightarrow>
               (let rdwrMode = flags fh AND accessModeMask;
                    st2 = (if rdwrMode \<noteq> O_RDONLY
                           then st1\<lparr>fnode := addWriter (RWFileHandleAt a) (fnode st1)\<rparr>
                           else st1)
                in if flags fh AND O_TRUNC \<noteq> 0
                      \<or> (flags fh AND O_CREATE \<noteq> 0 \<and> \<not> exists (fnode st))
                   then (case openPending e False (fh, st2) of
                           (Some err, fh3, st3) \<Rightarrow>
                             (Inl err,
                              st3\<lparr>fnode := snd (delWriter e (RWFileHandleAt a) False (fnode st3))\<rparr>)
                         | (None, fh3, st3) \<Rightarrow> (Inr fh3, st3))
                   else (Inr fh, st2))))"

definition fh_modified :: "RWFileHandle \<Rightarrow> bool" where
  "fh_modified fh = (if \<not> writeCalled fh \<and> \<not> changed fh then False else True)"

text \<open>
  An operation that can block forever returns an option: \<open>None\<close> stands for never
  returning.

  \<open>openPending(false)\<close> as \<open>flushWrites\<close> calls it, with \<open>fh.file.muRW\<close> held by the caller
  (\<open>close\<close> and \<open>Flush\<close> lock it, and \<open>flushWrites\<close> "must be called with \<open>fh.muRW\<close> held"):
  when the handle is opened the call returns nil at once; otherwise it locks \<open>muRW\<close>,
  which its own goroutine holds, and never returns.
\<close>

definition openPending_muRW_held ::
  "RWFileHandle \<times> VFS \<Rightarrow> (error option \<times> RWFileHandle \<times> VFS) option" where
  "openPending_muRW_held = (\<lambda>(fh, st).
     if opened fh then Some (None, fh, st) else None)"

text \<open>
  \<open>flushWrites(closeFile)\<close>. The body after \<open>delWriter\<close> is a function of its own, so
  that the deferred \<open>finishWriterClose\<close> runs after each of its returns (and not when it
  does not return).
\<close>

definition flushWrites_body ::
  "env \<Rightarrow> bool \<Rightarrow> bool \<Rightarrow> bool \<Rightarrow> RWFileHandle \<times> VFS
   \<Rightarrow> (error option \<times> RWFileHandle \<times> VFS) option" where
  "flushWrites_body e closeFile writer isCopied = (\<lambda>(fh, st).
     case (if flags fh AND (O_CREATE OR O_TRUNC) \<noteq> 0 then openPending_muRW_held (fh, st)
           else Some (None, fh, st)) of
       None \<Rightarrow> None
     | Some (Some err, fh1, st1) \<Rightarrow> Some (Some err, fh1, st1)
     | Some (None, fh1, st1) \<Rightarrow>
        (let st2 = (if writer \<and> opened fh1
                    then (case fd_Stat e of
                            Inl err \<Rightarrow> st1
                          | Inr n \<Rightarrow> st1\<lparr>fnode := setSize n (fnode st1)\<rparr>)
                    else st1)
         in case (if opened fh1 \<and> closeFile then fd_Close e else None) of
              Some err \<Rightarrow> Some (Some (Wrap ''failed to close cache file'' err), fh1, st2)
            | None \<Rightarrow>
               if isCopied
               then (case cache_Store e of
                       Inl err \<Rightarrow> Some (Some err, fh1, st2)
                     | Inr ob \<Rightarrow> Some (None, fh1, setObject ob st2))
               else Some (None, fh1, st2)))"

definition flushWrites ::
  "env \<Rightarrow> bool \<Rightarrow> RWFileHandle \<times> VFS \<Rightarrow> (error option \<times> RWFileHandle \<times> VFS) option" where
  "flushWrites e closeFile = (\<lambda>(fh, st).
     if closed fh \<and> \<not> closeFile then Some (None, fh, st)
     else
       (let rdwrMode = flags fh AND accessModeMask;
            writer = (rdwrMode \<noteq> O_RDONLY)
        in if \<not> opened fh \<and> rdwrMode = O_RDONLY then Some (None, fh, st)
           else if writer
           then (case delWriter e (RWFileHandleAt (addr fh)) (fh_modified fh) (fnode st) of
                   (isCopied, f1) \<Rightarrow>
                     (case flushWrites_body e closeFile writer isCopied (fh, st\<lparr>fnode := f1\<rparr>) of
                        None \<Rightarrow> None
                      | Some (err, fh2, st2) \<Rightarrow>
                          Some (err, fh2, st2\<lparr>fnode := finishWriterClose e (fnode st2)\<rparr>)))
           else flushWrites_body e closeFile writer False (fh, st)))"

text \<open>
  \<open>close\<close> locks \<open>muRW\<close>. The deferred function runs after \<open>flushWrites\<close> has returned,
  on every return but the \<open>ECLOSED\<close> one, which comes before the \<open>defer\<close>.
\<close>

definition close ::
  "env \<Rightarrow> RWFileHandle \<times> VFS \<Rightarrow> (error option \<times> RWFileHandle \<times> VFS) option" where
  "close e = (\<lambda>(fh, st).
     if closed fh then Some (Some ECLOSED, fh, st)
     else
       (case flushWrites e True (fh\<lparr>closed := True\<rparr>, st) of
          None \<Rightarrow> None
        | Some (err, fh1, st1) \<Rightarrow>
            (let st2 = (if opened fh1 then st1\<lparr>fnode := delRWOpen (fnode st1)\<rparr> else st1)
             in Some (err, fh1, cache_Close (Path (fnode st2)) st2))))"

definition Close ::
  "env \<Rightarrow> RWFileHandle \<times> VFS \<Rightarrow> (error option \<times> RWFileHandle \<times> VFS) option" where
  "Close e = close e"

text \<open>\<open>Flush\<close> locks \<open>muRW\<close> before it calls \<open>flushWrites(false)\<close>.\<close>

definition Flush ::
  "env \<Rightarrow> RWFileHandle \<times> VFS \<Rightarrow> (error option \<times> RWFileHandle \<times> VFS) option" where
  "Flush e = (\<lambda>(fh, st).
     if \<not> opened fh then Some (None, fh, st)
     else if closed fh then Some (None, fh, st)
     else if \<not> opened fh then Some (None, fh, st)
     else if \<not> writeCalled fh then Some (None, fh, st)
     else flushWrites e False (fh, st))"

definition Release ::
  "env \<Rightarrow> RWFileHandle \<times> VFS \<Rightarrow> (error option \<times> RWFileHandle \<times> VFS) option" where
  "Release e = (\<lambda>(fh, st).
     if closed fh then Some (None, fh, st)
     else close e (fh, st))"

text \<open>
  \<open>_writeAt\<close>, as far as the handle and the file go: the bytes are written to the cache
  file by \<open>fd.Write\<close> or \<open>fd.WriteAt\<close>, whose error is \<open>werr\<close>.
\<close>

definition writeAt ::
  "env \<Rightarrow> error option \<Rightarrow> RWFileHandle \<times> VFS \<Rightarrow> error option \<times> RWFileHandle \<times> VFS" where
  "writeAt e werr = (\<lambda>(fh, st).
     if closed fh then (Some ECLOSED, fh, st)
     else if flags fh AND accessModeMask = O_RDONLY then (Some EBADF, fh, st)
     else
       (case openPending e False (fh, st) of
          (Some err, fh1, st1) \<Rightarrow> (Some err, fh1, st1)
        | (None, fh1, st1) \<Rightarrow>
           (let fh2 = fh1\<lparr>writeCalled := True\<rparr>
            in case werr of
                 Some err \<Rightarrow> (Some err, fh2, st1)
               | None \<Rightarrow>
                  (case fd_Stat e of
                     Inl err \<Rightarrow> (Some (Wrap ''failed to stat cache file'' err), fh2, st1)
                   | Inr n \<Rightarrow> (None, fh2, st1\<lparr>fnode := setSize n (fnode st1)\<rparr>)))))"

text \<open>\<open>RWFileHandle.Truncate(size)\<close>.\<close>

definition RW_Truncate ::
  "env \<Rightarrow> int \<Rightarrow> RWFileHandle \<times> VFS \<Rightarrow> error option \<times> RWFileHandle \<times> VFS" where
  "RW_Truncate e n = (\<lambda>(fh, st).
     if closed fh then (Some ECLOSED, fh, st)
     else
       (case openPending e (n = 0) (fh, st) of
          (Some err, fh1, st1) \<Rightarrow> (Some err, fh1, st1)
        | (None, fh1, st1) \<Rightarrow>
            (fd_Truncate e, fh1\<lparr>changed := True\<rparr>, st1\<lparr>fnode := setSize n (fnode st1)\<rparr>)))"


subsection \<open>Opening a file (src, \<open>File.Open\<close>)\<close>

text \<open>
  The handle \<open>File.Open\<close> returns: an \<open>RWFileHandle\<close>, or a write-only or a read-only
  handle. The last two variants are not in the sources: whether their constructors and
  methods fail is a result of the environment, and the read-only handle does not touch
  the file node.
\<close>

datatype OpenedHandle = OpenedRW RWFileHandle | OpenedWrite nat | OpenedRead nat

text \<open>
  \<open>waitForValidObject\<close> polls up to 50 times; between two polls of this sequential
  model nothing changes the file.
\<close>

fun waitForValidObject_loop :: "nat \<Rightarrow> File \<Rightarrow> error + Object" where
  "waitForValidObject_loop 0 f = Inl ENOENT"
| "waitForValidObject_loop (Suc n) f =
     (case obj f of
        Some ob \<Rightarrow> Inr ob
      | None \<Rightarrow>
         if length (writers f) = 0 \<and> \<not> readWriterClosing f
         then Inl (ErrOther ''can't open file - writer failed'')
         else waitForValidObject_loop n f)"

definition waitForValidObject :: "File \<Rightarrow> error + Object" where
  "waitForValidObject f = waitForValidObject_loop 50 f"

definition openRead :: "env \<Rightarrow> VFS \<Rightarrow> (error + OpenedHandle) \<times> VFS" where
  "openRead e st =
     (case waitForValidObject (fnode st) of
        Inl err \<Rightarrow> (Inl err, st)
      | Inr ob \<Rightarrow>
         (case newReadFileHandle e of
            Inl err \<Rightarrow> (Inl err, st)
          | Inr a \<Rightarrow> (Inr (OpenedRead a), st)))"

text \<open>
  Modelled from the spec: \<open>newWriteFileHandle\<close>, which \<open>openWrite\<close> calls, is missing from
  the sources. \<open>writers\<close> is the set of open write-capable handles, so a write-only
  handle that was constructed is registered with \<open>addWriter\<close>.
\<close>

definition openWrite :: "env \<Rightarrow> int \<Rightarrow> VFS \<Rightarrow> (error + OpenedHandle) \<times> VFS" where
  "openWrite e fl st =
     (if ReadOnly st then (Inl EROFS, st)
      else (case newWriteFileHandle e of
              Inl err \<Rightarrow> (Inl err, st)
            | Inr a \<Rightarrow>
                (Inr (OpenedWrite a),
                 st\<lparr>fnode := addWriter (WriteFileHandleAt a) (fnode st)\<rparr>)))"

definition openRW :: "env \<Rightarrow> nat \<Rightarrow> int \<Rightarrow> VFS \<Rightarrow> (error + OpenedHandle) \<times> VFS" where
  "openRW e a fl st =
     (if fl AND accessModeMask \<noteq> O_RDONLY \<and> ReadOnly st then (Inl EROFS, st)
      else (case newRWFileHandle e a fl st of
              (Inl err, st1) \<Rightarrow> (Inl err, st1)
            | (Inr fh, st1) \<Rightarrow> (Inr (OpenedRW fh), st1)))"

text \<open>
  The end of \<open>File.Open\<close>: if a file is being created and the open succeeded, the
  directory lists the file.
\<close>

definition Open_finish :: "int \<Rightarrow> (error + OpenedHandle) \<times> VFS \<Rightarrow> (error + OpenedHandle) \<times> VFS" where
  "Open_finish fl = (\<lambda>(res, st).
     case res of
       Inl err \<Rightarrow> (res, st)
     | Inr h \<Rightarrow> (res, if fl AND O_CREATE \<noteq> 0 then st\<lparr>dir_listed := True\<rparr> else st))"

text \<open>\<open>File.Open(flags)\<close>; \<open>a\<close> is the address a new \<open>RWFileHandle\<close> gets.\<close>

definition Open :: "env \<Rightarrow> nat \<Rightarrow> int \<Rightarrow> VFS \<Rightarrow> (error + OpenedHandle) \<times> VFS" where
  "Open e a fl st =
     (let rdwrMode = fl AND accessModeMask
      in if rdwrMode = O_RDONLY \<and> fl AND O_TRUNC \<noteq> 0 then (Inl EINVAL, st)
         else if rdwrMode \<noteq> O_RDONLY \<and> rdwrMode \<noteq> O_WRONLY \<and> rdwrMode \<noteq> O_RDWR
         then (Inl EPERM, st)
         else
           (let read0 = (rdwrMode = O_RDONLY \<or> rdwrMode = O_RDWR);
                write0 = (rdwrMode = O_WRONLY \<or> rdwrMode = O_RDWR);
                read = (if fl AND O_APPEND \<noteq> 0 then True else read0);
                st1 = (if fl AND O_APPEND \<noteq> 0
                       then st\<lparr>fnode := (fnode st)\<lparr>appendMode := True\<rparr>\<rparr> else st);
                write = (if fl AND O_TRUNC \<noteq> 0 then True else write0);
                cm = CacheMode st1
            in if mode_rank cm \<ge> mode_rank CacheModeMinimal
                  \<and> (cache_Opens (Path (fnode st1)) st1 > 0 \<or> cache_Exists e)
               then Open_finish fl (openRW e a fl st1)
               else if read \<and> write
               then (if mode_rank cm \<ge> mode_rank CacheModeMinimal
                     then Open_finish fl (openRW e a fl st1)
                     else Open_finish fl (openWrite e fl st1))
               else if write
               then (if mode_rank cm \<ge> mode_rank CacheModeWrites
                     then Open_finish fl (openRW e a fl st1)
                     else Open_finish fl (openWrite e fl st1))
               else if read
               then (if mode_rank cm \<ge> mode_rank CacheModeFull
                     then Open_finish fl (openRW e a fl st1)
                     else Open_finish fl (openRead e st1))
               else (Inl EPERM, st1)))"

subsection \<open>The open-mode selector as the specification words it\<close>

datatype variant = RWVariant | WriteOnlyVariant | ReadOnlyVariant

text \<open>
  The intents: from the access mode, with \<open>O_APPEND\<close> forcing read on and \<open>O_TRUNC\<close>
  forcing write on.
\<close>

definition read_intent :: "int \<Rightarrow> bool" where
  "read_intent fl =
     (fl AND accessModeMask = O_RDONLY \<or> fl AND accessModeMask = O_RDWR \<or> fl AND O_APPEND \<noteq> 0)"

definition write_intent :: "int \<Rightarrow> bool" where
  "write_intent fl =
     (fl AND accessModeMask = O_WRONLY \<or> fl AND accessModeMask = O_RDWR \<or> fl AND O_TRUNC \<noteq> 0)"

text \<open>
  The four rules, top-down, first match wins; \<open>cached\<close> says that the cache has the
  path open or resident.
\<close>

definition selector_table :: "CacheMode \<Rightarrow> bool \<Rightarrow> bool \<Rightarrow> bool \<Rightarrow> variant" where
  "selector_table cm cached rd wr =
     (if mode_rank cm \<ge> mode_rank CacheModeMinimal \<and> cached then RWVariant
      else if rd \<and> wr
      then (if mode_rank cm \<ge> mode_rank CacheModeMinimal then RWVariant else WriteOnlyVariant)
      else if wr \<and> \<not> rd
      then (if mode_rank cm \<ge> mode_rank CacheModeWrites then RWVariant else WriteOnlyVariant)
      else (if cm = CacheModeFull then RWVariant else ReadOnlyVariant))"

definition variant_of :: "OpenedHandle \<Rightarrow> variant" where
  "variant_of h = (case h of OpenedRW fh \<Rightarrow> RWVariant
                   | OpenedWrite a \<Rightarrow> WriteOnlyVariant
                   | OpenedRead a \<Rightarrow> ReadOnlyVariant)"

text \<open>Opening with the constructor of a given variant, the way \<open>File.Open\<close> does.\<close>

definition Open_variant ::
  "variant \<Rightarrow> env \<Rightarrow> nat \<Rightarrow> int \<Rightarrow> VFS \<Rightarrow> (error + OpenedHandle) \<times> VFS" where
  "Open_variant v e a fl st =
     (let st1 = (if fl AND O_APPEND \<noteq> 0
                 then st\<lparr>fnode := (fnode st)\<lparr>appendMode := True\<rparr>\<rparr> else st)
      in Open_finish fl
           (case v of
              RWVariant \<Rightarrow> openRW e a fl st1
            | WriteOnlyVariant \<Rightarrow> openWrite e fl st1
            | ReadOnlyVariant \<Rightarrow> openRead e st1))"

definition valid_access_mode :: "int \<Rightarrow> bool" where
  "valid_access_mode fl =
     (fl AND accessModeMask = O_RDONLY \<or> fl AND accessModeMask = O_WRONLY
      \<or> fl AND accessModeMask = O_RDWR)"

subsection \<open>Truncating a file (src, \<open>File.Truncate\<close>)\<close>

text \<open>
  A call returns, panics (\<open>o.Size()\<close> on a nil \<open>fs.Object\<close> is a nil dereference), or
  blocks forever.
\<close>

datatype 'a outcome = Panics | Blocks | Returns 'a

text \<open>
  The \<open>RWFileHandle\<close>s live in a store, by address. \<open>h.Truncate(size)\<close> and the
  deferred \<open>fs.CheckClose(fh, &err)\<close> dispatch on the dynamic type of the handle.
\<close>

type_synonym handles = "nat \<Rightarrow> RWFileHandle"

fun truncate_writers ::
  "(nat \<Rightarrow> env) \<Rightarrow> int \<Rightarrow> Handle list \<Rightarrow> nat \<Rightarrow> error option \<Rightarrow> handles \<times> VFS
   \<Rightarrow> error option \<times> handles \<times> VFS" where
  "truncate_writers es n [] k err (hs, st) = (err, hs, st)"
| "truncate_writers es n (RWFileHandleAt a # rest) k err (hs, st) =
     (case RW_Truncate (es k) n (hs a, st) of
        (truncateErr, fh1, st1) \<Rightarrow>
          truncate_writers es n rest (k + 1)
            (if truncateErr \<noteq> None then truncateErr else err) (hs(a := fh1), st1))"
| "truncate_writers es n (WriteFileHandleAt a # rest) k err (hs, st) =
     truncate_writers es n rest (k + 1)
       (if write_handle_Truncate (es k) \<noteq> None then write_handle_Truncate (es k) else err)
       (hs, st)"

definition handle_Truncate ::
  "env \<Rightarrow> int \<Rightarrow> OpenedHandle \<Rightarrow> handles \<times> VFS \<Rightarrow> error option \<times> handles \<times> VFS" where
  "handle_Truncate e n h = (\<lambda>(hs, st).
     case h of
       OpenedRW fh \<Rightarrow>
         (case RW_Truncate e n (hs (addr fh), st) of
            (err, fh1, st1) \<Rightarrow> (err, hs(addr fh := fh1), st1))
     | OpenedWrite a \<Rightarrow> (write_handle_Truncate e, hs, st)
     | OpenedRead a \<Rightarrow> (read_handle_Truncate e, hs, st))"

text \<open>
  Modelled from the spec: the \<open>Close\<close> of the write-only handle is missing from the
  sources. The handle stops being a writer: it leaves with \<open>delWriter\<close> (there is no
  modified cache file) and \<open>finishWriterClose\<close>. What its upload does to the remote
  object is left out.
\<close>

definition handle_Close ::
  "env \<Rightarrow> OpenedHandle \<Rightarrow> handles \<times> VFS \<Rightarrow> (error option \<times> handles \<times> VFS) option" where
  "handle_Close e h = (\<lambda>(hs, st).
     case h of
       OpenedRW fh \<Rightarrow>
         (case Close e (hs (addr fh), st) of
            None \<Rightarrow> None
          | Some (err, fh1, st1) \<Rightarrow> Some (err, hs(addr fh := fh1), st1))
     | OpenedWrite a \<Rightarrow>
         Some (write_handle_Close e, hs,
               st\<lparr>fnode := finishWriterClose e
                             (snd (delWriter e (WriteFileHandleAt a) False (fnode st)))\<rparr>)
     | OpenedRead a \<Rightarrow> Some (read_handle_Close e, hs, st))"

text \<open>
  \<open>File.Truncate(size)\<close>. The environment \<open>es k\<close> serves the \<open>k\<close>-th writer's
  \<open>Truncate\<close>, \<open>es 0\<close> the reopening path; \<open>a\<close> is the address a new \<open>RWFileHandle\<close>
  gets.
\<close>

definition File_Truncate ::
  "(nat \<Rightarrow> env) \<Rightarrow> nat \<Rightarrow> int \<Rightarrow> handles \<times> VFS \<Rightarrow> (error option \<times> handles \<times> VFS) outcome" where
  "File_Truncate es a n = (\<lambda>(hs, st).
     let ws = writers (fnode st); ob = obj (fnode st)
     in if length ws \<noteq> 0 then Returns (truncate_writers es n ws 1 None (hs, st))
        else
          (case ob of
             None \<Rightarrow> Panics
           | Some ob1 \<Rightarrow>
              if ObjSize ob1 = n then Returns (None, hs, st)
              else
                (let fl = (if n = 0 then O_WRONLY OR O_TRUNC else O_WRONLY)
                 in case Open (es 0) a fl st of
                      (Inl err, st1) \<Rightarrow> Returns (Some err, hs, st1)
                    | (Inr h, st1) \<Rightarrow>
                       (let hs1 = (case h of OpenedRW fh \<Rightarrow> hs(a := fh) | _ \<Rightarrow> hs)
                        in case (if n \<noteq> 0 then handle_Truncate (es 0) n h (hs1, st1)
                                 else (None, hs1, st1)) of
                             (err, hs2, st2) \<Rightarrow>
                               (case handle_Close (es 0) h (hs2, st2) of
                                  None \<Rightarrow> Blocks
                                | Some (cerr, hs3, st3) \<Rightarrow>
                                    Returns (if err = None then cerr else err, hs3, st3))))))"


subsection \<open>A concrete file, environment and scenario\<close>

text \<open>\<open>newFile(d, dPath, o, leaf)\<close>.\<close>

definition newFile :: "string \<Rightarrow> Object option \<Rightarrow> string \<Rightarrow> File" where
  "newFile dp ob lf =
     \<lparr>dPath = dp, leaf = lf, obj = ob,
      fsize = (case ob of Some ob1 \<Rightarrow> ObjSize ob1 | None \<Rightarrow> 0),
      rwOpenCount = 0, writers = [], nwriters = 0, readWriters = 0,
      readWriterClosing = False, modified = False, pendingModTime = None,
      pendingRenameFun = False, appendMode = False\<rparr>"

text \<open>
  An environment in which every external call succeeds and the cache holds no copy of
  the file yet, and one in which closing the cache file fails.
\<close>

definition env_ok :: env where
  "env_ok =
     \<lparr>cache_Mkdir = None, cache_Check = None, cache_Fetch = None,
      cache_Store = Inr \<lparr>Remote = ''dir/a'', ObjSize = 3\<rparr>, cache_Exists = False,
      OpenFile_existing = Some ErrNotExist, OpenFile_final = None, WriteFile = None,
      GOOS_windows = False, os_Stat = None, os_Truncate = None, fd_Stat = Inr 3,
      fd_Close = None, fd_Truncate = None, rename_obj = None, rename_pending = False,
      newReadFileHandle = Inr 7, newWriteFileHandle = Inr 8,
      write_handle_Truncate = None, write_handle_Close = None,
      read_handle_Truncate = None, read_handle_Close = None\<rparr>"

definition env_close_fails :: env where
  "env_close_fails = env_ok\<lparr>fd_Close := Some (ErrOther ''input/output error'')\<rparr>"

text \<open>A VFS around a file that does not exist on the remote yet, and around one that does.\<close>

definition vfs_new :: "CacheMode \<Rightarrow> VFS" where
  "vfs_new cm = \<lparr>fnode = newFile ''dir'' None ''a'', cache_opens = (\<lambda>p. 0),
                 dir_listed = False, ReadOnly = False, CacheMode = cm\<rparr>"

definition vfs_existing :: "CacheMode \<Rightarrow> VFS" where
  "vfs_existing cm =
     \<lparr>fnode = newFile ''dir'' (Some \<lparr>Remote = ''dir/a'', ObjSize = 100\<rparr>) ''a'',
      cache_opens = (\<lambda>p. 0), dir_listed = True, ReadOnly = False, CacheMode = cm\<rparr>"

text \<open>
  The scenario: a new file is opened with \<open>O_WRONLY|O_CREATE\<close> through an
  \<open>RWFileHandle\<close> at address 1, then written to.
\<close>

definition scenario_opened :: "RWFileHandle \<times> VFS" where
  "scenario_opened =
     (case newRWFileHandle env_ok 1 (O_WRONLY OR O_CREATE) (vfs_new CacheModeFull) of
        (Inr fh, st) \<Rightarrow> (fh, st)
      | (Inl err, st) \<Rightarrow> (new_handle 1 (O_WRONLY OR O_CREATE), st))"

definition scenario_written :: "RWFileHandle \<times> VFS" where
  "scenario_written = snd (writeAt env_ok None scenario_opened)"

text \<open>
  A second scenario: a file that exists on the remote is opened with \<open>O_WRONLY|O_CREATE\<close>
  through an \<open>RWFileHandle\<close> at address 1; nothing is read or written, so the open is
  still pending.
\<close>

definition scenario_pending :: "RWFileHandle \<times> VFS" where
  "scenario_pending =
     (case newRWFileHandle env_ok 1 (O_WRONLY OR O_CREATE) (vfs_existing CacheModeFull) of
        (Inr fh, st) \<Rightarrow> (fh, st)
      | (Inl err, st) \<Rightarrow> (new_handle 1 (O_WRONLY OR O_CREATE), st))"

text \<open>
  The same scenario ended by a \<open>Close\<close> whose upload (\<open>cache.Store\<close>) fails: the file is
  left without writers and without a remote object.
\<close>

definition env_store_fails :: env where
  "env_store_fails = env_ok\<lparr>cache_Store := Inl (ErrOther ''upload failed'')\<rparr>"

definition scenario_store_failed :: VFS where
  "scenario_store_failed =
     (case Close env_store_fails scenario_written of
        Some (err, fh, st) \<Rightarrow> st
      | None \<Rightarrow> snd scenario_written)"

subsection \<open>Frames: what an operation leaves unchanged\<close>

text \<open>
  The parts of the file node, of the state and of the handle that materialization and
  the writeback body never write.
\<close>

definition file_frame :: "File \<Rightarrow> File \<Rightarrow> bool" where
  "file_frame f f' =
     (dPath f' = dPath f \<and> leaf f' = leaf f \<and> writers f' = writers f \<and>
      nwriters f' = nwriters f \<and> readWriters f' = readWriters f)"

definition vfs_frame :: "VFS \<Rightarrow> VFS \<Rightarrow> bool" where
  "vfs_frame st st' =
     (cache_opens st' = cache_opens st \<and> ReadOnly st' = ReadOnly st \<and>
      CacheMode st' = CacheMode st \<and> file_frame (fnode st) (fnode st'))"

definition handle_frame :: "RWFileHandle \<Rightarrow> RWFileHandle \<Rightarrow> bool" where
  "handle_frame fh fh' =
     (addr fh' = addr fh \<and> flags fh' = flags fh \<and> closed fh' = closed fh \<and>
      writeCalled fh' = writeCalled fh \<and> (opened fh \<longrightarrow> opened fh'))"

subsection \<open>Exclusive create\<close>

text \<open>
  Claim C7. Constructing an RW handle with both \<open>O_CREATE\<close> and \<open>O_EXCL\<close> set on a file
  that exists (has a remote object) fails with \<open>EEXIST\<close>, and nothing has happened yet:
  the state is unchanged, in particular the cache's open-refcount of every path and the
  file's writers.
\<close>

theorem newRWFileHandle_exclusive_create:
  assumes "fl AND (O_CREATE OR O_EXCL) = (O_CREATE OR O_EXCL)" and "exists (fnode st)"
  shows "newRWFileHandle e a fl st = (Inl EEXIST, st) \<and>
         cache_Opens p (snd (newRWFileHandle e a fl st)) = cache_Opens p st \<and>
         writers (fnode (snd (newRWFileHandle e a fl st))) = writers (fnode st)"
  using assms by (simp add: newRWFileHandle_def)

theorem newRWFileHandle_exclusive_create_witness:
  "(O_RDWR OR O_CREATE OR O_EXCL) AND (O_CREATE OR O_EXCL) = (O_CREATE OR O_EXCL) \<and>
   exists (fnode (vfs_existing CacheModeFull)) \<and>
   newRWFileHandle env_ok 1 (O_RDWR OR O_CREATE OR O_EXCL) (vfs_existing CacheModeFull)
     = (Inl EEXIST, vfs_existing CacheModeFull) \<and>
   cache_Opens ''dir/a''
     (snd (newRWFileHandle env_ok 1 (O_RDWR OR O_CREATE OR O_EXCL) (vfs_existing CacheModeFull)))
     = cache_Opens ''dir/a'' (vfs_existing CacheModeFull) \<and>
   writers (fnode
     (snd (newRWFileHandle env_ok 1 (O_RDWR OR O_CREATE OR O_EXCL) (vfs_existing CacheModeFull))))
     = writers (fnode (vfs_existing CacheModeFull))"
proof -
  have h1: "(O_RDWR OR O_CREATE OR O_EXCL) AND (O_CREATE OR O_EXCL) = (O_CREATE OR O_EXCL)"
    by code_simp
  have h2: "exists (fnode (vfs_existing CacheModeFull))" by code_simp
  show ?thesis by (intro conjI h1 h2 newRWFileHandle_exclusive_create [OF h1 h2])
qed

subsection \<open>The open-mode selector\<close>

lemma Open_finish_variant:
  "Open_finish fl (r, st) = (Inr h, st') \<Longrightarrow> r = Inr h"
  by (auto simp: Open_finish_def split: sum.splits)

lemma openRW_variant: "openRW e a fl st = (Inr h, st') \<Longrightarrow> variant_of h = RWVariant"
  by (auto simp: openRW_def variant_of_def split: if_splits prod.splits sum.splits)

lemma openWrite_variant: "openWrite e fl st = (Inr h, st') \<Longrightarrow> variant_of h = WriteOnlyVariant"
  by (auto simp: openWrite_def variant_of_def split: if_splits prod.splits sum.splits)

lemma openRead_variant: "openRead e st = (Inr h, st') \<Longrightarrow> variant_of h = ReadOnlyVariant"
  by (auto simp: openRead_def variant_of_def split: if_splits prod.splits sum.splits)

lemma Open_variant_kind:
  assumes "Open_variant v e a fl st = (Inr h, st')"
  shows "variant_of h = v"
proof -
  define st1 where "st1 = (if fl AND O_APPEND \<noteq> 0
                 then st\<lparr>fnode := (fnode st)\<lparr>appendMode := True\<rparr>\<rparr> else st)"
  show ?thesis
  proof (cases v)
    case RWVariant
    obtain r s where o: "openRW e a fl st1 = (r, s)" by (cases "openRW e a fl st1")
    with assms RWVariant have "r = Inr h"
      by (auto simp: Open_variant_def st1_def [symmetric] dest: Open_finish_variant)
    with o RWVariant show ?thesis by (auto dest: openRW_variant)
  next
    case WriteOnlyVariant
    obtain r s where o: "openWrite e fl st1 = (r, s)" by (cases "openWrite e fl st1")
    with assms WriteOnlyVariant have "r = Inr h"
      by (auto simp: Open_variant_def st1_def [symmetric] dest: Open_finish_variant)
    with o WriteOnlyVariant show ?thesis by (auto dest: openWrite_variant)
  next
    case ReadOnlyVariant
    obtain r s where o: "openRead e st1 = (r, s)" by (cases "openRead e st1")
    with assms ReadOnlyVariant have "r = Inr h"
      by (auto simp: Open_variant_def st1_def [symmetric] dest: Open_finish_variant)
    with o ReadOnlyVariant show ?thesis by (auto dest: openRead_variant)
  qed
qed

lemma mode_rank_Full: "3 \<le> mode_rank cm \<longleftrightarrow> cm = CacheModeFull"
  by (cases cm) auto

lemma Open_by_table:
  assumes "valid_access_mode fl"
    and "\<not> (fl AND accessModeMask = O_RDONLY \<and> fl AND O_TRUNC \<noteq> 0)"
  shows "Open e a fl st =
     Open_variant
       (selector_table (CacheMode st)
          (cache_Opens (Path (fnode st)) st > 0 \<or> cache_Exists e)
          (read_intent fl) (write_intent fl)) e a fl st"
proof -
  have p: "Path ((fnode st)\<lparr>appendMode := True\<rparr>) = Path (fnode st)"
    by (simp add: Path_def)
  show ?thesis
    using assms
    by (auto simp: Open_def Open_variant_def selector_table_def read_intent_def write_intent_def
        valid_access_mode_def Let_def cache_Opens_def p mode_rank_Full
        O_RDONLY_def O_WRONLY_def O_RDWR_def)
qed

text \<open>
  Claim C1, as the code has it. For every flag combination with a valid access mode,
  except \<open>O_RDONLY\<close> together with \<open>O_TRUNC\<close> (which \<open>File.Open\<close> rejects with \<open>EINVAL\<close>
  before it looks at the cache mode), and for every cache mode, \<open>File.Open\<close> is the
  constructor of the variant the four-rule table gives, the intents being those of the
  access mode with \<open>O_APPEND\<close> forcing read on and \<open>O_TRUNC\<close> forcing write on; and a
  handle it returns is of that variant.
\<close>

theorem Open_routes_by_table:
  assumes "valid_access_mode fl"
    and "\<not> (fl AND accessModeMask = O_RDONLY \<and> fl AND O_TRUNC \<noteq> 0)"
  shows "Open e a fl st =
     Open_variant
       (selector_table (CacheMode st)
          (cache_Opens (Path (fnode st)) st > 0 \<or> cache_Exists e)
          (read_intent fl) (write_intent fl)) e a fl st \<and>
     (\<forall>h st'. Open e a fl st = (Inr h, st') \<longrightarrow>
        variant_of h = selector_table (CacheMode st)
          (cache_Opens (Path (fnode st)) st > 0 \<or> cache_Exists e)
          (read_intent fl) (write_intent fl))"
  using Open_by_table [OF assms] Open_variant_kind by metis

theorem Open_routes_by_table_witness:
  "valid_access_mode O_WRONLY \<and>
   \<not> (O_WRONLY AND accessModeMask = O_RDONLY \<and> O_WRONLY AND O_TRUNC \<noteq> 0) \<and>
   selector_table (CacheMode (vfs_new CacheModeWrites))
     (cache_Opens (Path (fnode (vfs_new CacheModeWrites))) (vfs_new CacheModeWrites) > 0
        \<or> cache_Exists env_ok)
     (read_intent O_WRONLY) (write_intent O_WRONLY) = RWVariant \<and>
   Open env_ok 1 O_WRONLY (vfs_new CacheModeWrites)
     = Open_variant RWVariant env_ok 1 O_WRONLY (vfs_new CacheModeWrites)"
proof -
  have h1: "valid_access_mode O_WRONLY" by code_simp
  have h2: "\<not> (O_WRONLY AND accessModeMask = O_RDONLY \<and> O_WRONLY AND O_TRUNC \<noteq> 0)"
    by code_simp
  have t: "selector_table (CacheMode (vfs_new CacheModeWrites))
     (cache_Opens (Path (fnode (vfs_new CacheModeWrites))) (vfs_new CacheModeWrites) > 0
        \<or> cache_Exists env_ok)
     (read_intent O_WRONLY) (write_intent O_WRONLY) = RWVariant"
    by code_simp
  have "Open env_ok 1 O_WRONLY (vfs_new CacheModeWrites)
     = Open_variant RWVariant env_ok 1 O_WRONLY (vfs_new CacheModeWrites)"
    using Open_routes_by_table [OF h1 h2, of env_ok 1 "vfs_new CacheModeWrites"]
    unfolding t by (rule conjunct1)
  then show ?thesis by (intro conjI h1 h2 t)
qed

text \<open>
  The sentence of C1 as it is written fails at \<open>O_RDONLY|O_TRUNC\<close>: the access mode is
  valid, the table gives an RW handle (read from the access mode, write forced by
  \<open>O_TRUNC\<close>, cache mode Full), and the RW constructor would succeed, but \<open>File.Open\<close>
  returns \<open>EINVAL\<close>.
\<close>

theorem Open_rdonly_trunc_counterexample:
  "valid_access_mode (O_RDONLY OR O_TRUNC) \<and>
   selector_table (CacheMode (vfs_existing CacheModeFull))
     (cache_Opens (Path (fnode (vfs_existing CacheModeFull))) (vfs_existing CacheModeFull) > 0
        \<or> cache_Exists env_ok)
     (read_intent (O_RDONLY OR O_TRUNC)) (write_intent (O_RDONLY OR O_TRUNC)) = RWVariant \<and>
   fst (Open env_ok 1 (O_RDONLY OR O_TRUNC) (vfs_existing CacheModeFull)) = Inl EINVAL \<and>
   fst (Open_variant RWVariant env_ok 1 (O_RDONLY OR O_TRUNC) (vfs_existing CacheModeFull))
     = Inr (OpenedRW \<lparr>addr = 1, fd = True, offset = 0, flags = 512, closed = False,
                       opened = True, writeCalled = False, changed = True\<rparr>)"
  by code_simp

subsection \<open>What the handle operations leave alone\<close>


lemma file_frame_refl [simp]: "file_frame f f"
  by (simp add: file_frame_def)

lemma vfs_frame_refl [simp]: "vfs_frame st st"
  by (simp add: vfs_frame_def)

lemma handle_frame_refl [simp]: "handle_frame fh fh"
  by (simp add: handle_frame_def)

lemma file_frame_trans: "file_frame a b \<Longrightarrow> file_frame b c \<Longrightarrow> file_frame a c"
  by (simp add: file_frame_def)

lemma vfs_frame_trans: "vfs_frame a b \<Longrightarrow> vfs_frame b c \<Longrightarrow> vfs_frame a c"
  by (auto simp: vfs_frame_def intro: file_frame_trans)

lemma handle_frame_trans: "handle_frame a b \<Longrightarrow> handle_frame b c \<Longrightarrow> handle_frame a c"
  by (simp add: handle_frame_def)

lemma file_frame_Path: "file_frame f f' \<Longrightarrow> Path f' = Path f"
  by (simp add: file_frame_def Path_def)

lemma applyPendingRename_frame: "file_frame f (applyPendingRename e f)"
  by (simp add: applyPendingRename_def file_frame_def)

lemma applyPendingRename_closing:
  "readWriterClosing f \<Longrightarrow> applyPendingRename e f = f"
  by (simp add: applyPendingRename_def writingInProgress_def)

lemma finishWriterClose_frame: "file_frame f (finishWriterClose e f)"
  using applyPendingRename_frame [of "f\<lparr>readWriterClosing := False\<rparr>" e]
  by (simp add: finishWriterClose_def file_frame_def)

lemma delWriter_effect:
  "dPath (snd (delWriter e h m f)) = dPath f"
  "leaf (snd (delWriter e h m f)) = leaf f"
  "writers (snd (delWriter e h m f)) = remove1 h (writers f)"
  "readWriters (snd (delWriter e h m f)) = (if isRWFileHandle h then readWriters f - 1 else readWriters f)"
  "readWriterClosing (snd (delWriter e h m f))"
  by (simp_all add: delWriter_def Let_def applyPendingRename_closing remove1_idem)

lemma openPending_existing_frame:
  "handle_frame fh (fst (snd (openPending_existing e (fh, st)))) \<and>
   vfs_frame st (snd (snd (openPending_existing e (fh, st)))) \<and>
   opened (fst (snd (openPending_existing e (fh, st)))) = opened fh"
  by (simp add: openPending_existing_def Let_def handle_frame_def vfs_frame_def file_frame_def
      setSize_def split: option.splits)

lemma openPending_truncate_frame:
  "handle_frame fh (fst (snd (openPending_truncate e (fh, st)))) \<and>
   vfs_frame st (snd (snd (openPending_truncate e (fh, st)))) \<and>
   opened (fst (snd (openPending_truncate e (fh, st)))) = opened fh"
  by (simp add: openPending_truncate_def Let_def handle_frame_def vfs_frame_def file_frame_def
      setSize_def split: option.splits)

lemma openPending_frame:
  "handle_frame fh (fst (snd (openPending e t (fh, st)))) \<and>
   vfs_frame st (snd (snd (openPending e t (fh, st)))) \<and>
   (fst (openPending e t (fh, st)) = None \<longrightarrow> opened (fst (snd (openPending e t (fh, st)))))"
proof (cases "opened fh")
  case True
  then show ?thesis by (simp add: openPending_def)
next
  case False
  obtain r1 fh1 st1 where a: "openPending_existing e (fh, st) = (r1, fh1, st1)"
    by (cases "openPending_existing e (fh, st)")
  obtain r2 fh2 st2 where b: "openPending_truncate e (fh, st) = (r2, fh2, st2)"
    by (cases "openPending_truncate e (fh, st)")
  have fa: "handle_frame fh fh1" "vfs_frame st st1"
    using openPending_existing_frame [of fh e st] a by simp_all
  have fb: "handle_frame fh fh2" "vfs_frame st st2"
    using openPending_truncate_frame [of fh e st] b by simp_all
  have g: "handle_frame fh x \<Longrightarrow> handle_frame fh (x\<lparr>fd := True, opened := True\<rparr>)" for x
    by (simp add: handle_frame_def)
  have h: "vfs_frame st y \<Longrightarrow> vfs_frame st (y\<lparr>fnode := addRWOpen (fnode y), dir_listed := True\<rparr>)" for y
    by (simp add: vfs_frame_def file_frame_def addRWOpen_def)
  show ?thesis
    using False fa fb g h
    by (simp add: openPending_def a b split: option.splits sum.splits)
qed

lemma flushWrites_body_frame:
  assumes "flushWrites_body e c w i (fh, st) = Some (err, fh', st')"
  shows "handle_frame fh fh'" and "vfs_frame st st'"
proof -
  have h: "vfs_frame st (st\<lparr>fnode := setSize n (fnode st)\<rparr>)" for n
    by (simp add: vfs_frame_def file_frame_def setSize_def)
  have k: "vfs_frame st y \<Longrightarrow> vfs_frame st (setObject ob y)" for y ob
    by (simp add: vfs_frame_def file_frame_def setObject_def)
  have "handle_frame fh fh' \<and> vfs_frame st st'"
    using assms h k
    by (auto simp: flushWrites_body_def openPending_muRW_held_def Let_def
        split: option.splits sum.splits if_splits)
  then show "handle_frame fh fh'" and "vfs_frame st st'" by simp_all
qed

lemma flushWrites_body_blocks:
  "flushWrites_body e c w i (fh, st) = None \<longleftrightarrow>
     (flags fh AND (O_CREATE OR O_TRUNC) \<noteq> 0 \<and> \<not> opened fh)"
  by (simp add: flushWrites_body_def openPending_muRW_held_def Let_def
      split: option.splits sum.splits)

lemma flushWrites_writer:
  assumes "flags fh AND accessModeMask \<noteq> O_RDONLY" "\<not> (closed fh \<and> \<not> c)"
  shows "flushWrites e c (fh, st) =
     (case flushWrites_body e c True
             (fst (delWriter e (RWFileHandleAt (addr fh)) (fh_modified fh) (fnode st)))
             (fh, st\<lparr>fnode := snd (delWriter e (RWFileHandleAt (addr fh)) (fh_modified fh) (fnode st))\<rparr>) of
        None \<Rightarrow> None
      | Some (err, fh2, st2) \<Rightarrow>
          Some (err, fh2, st2\<lparr>fnode := finishWriterClose e (fnode st2)\<rparr>))"
  using assms by (auto simp: flushWrites_def Let_def split: prod.splits)

lemma flushWrites_other:
  assumes "flags fh AND accessModeMask = O_RDONLY \<or> (closed fh \<and> \<not> c)"
  shows "flushWrites e c (fh, st) =
     (if (closed fh \<and> \<not> c) \<or> \<not> opened fh then Some (None, fh, st)
      else flushWrites_body e c False False (fh, st))"
  using assms by (auto simp: flushWrites_def Let_def)

lemma flushWrites_blocks:
  "flushWrites e c (fh, st) = None \<longleftrightarrow>
     (\<not> (closed fh \<and> \<not> c) \<and> flags fh AND accessModeMask \<noteq> O_RDONLY \<and>
      flags fh AND (O_CREATE OR O_TRUNC) \<noteq> 0 \<and> \<not> opened fh)"
proof (cases "flags fh AND accessModeMask \<noteq> O_RDONLY \<and> \<not> (closed fh \<and> \<not> c)")
  case True
  define d where "d = delWriter e (RWFileHandleAt (addr fh)) (fh_modified fh) (fnode st)"
  define b where "b = flushWrites_body e c True (fst d) (fh, st\<lparr>fnode := snd d\<rparr>)"
  have w: "flushWrites e c (fh, st) =
     (case b of None \<Rightarrow> None
      | Some (err, fh2, st2) \<Rightarrow>
          Some (err, fh2, st2\<lparr>fnode := finishWriterClose e (fnode st2)\<rparr>))"
    using True flushWrites_writer [of fh c e st] by (simp add: b_def d_def)
  have "flushWrites e c (fh, st) = None \<longleftrightarrow> b = None"
    unfolding w by (cases b) auto
  also have "\<dots> \<longleftrightarrow> (flags fh AND (O_CREATE OR O_TRUNC) \<noteq> 0 \<and> \<not> opened fh)"
    unfolding b_def by (rule flushWrites_body_blocks)
  finally show ?thesis using True by simp
next
  case False
  then have "flushWrites e c (fh, st) =
     (if (closed fh \<and> \<not> c) \<or> \<not> opened fh then Some (None, fh, st)
      else flushWrites_body e c False False (fh, st))"
    by (intro flushWrites_other) auto
  then show ?thesis using False flushWrites_body_blocks by auto
qed

lemma flushWrites_frame:
  assumes "flushWrites e c (fh, st) = Some (err, fh', st')"
  shows "handle_frame fh fh'" and "cache_opens st' = cache_opens st"
    and "Path (fnode st') = Path (fnode st)"
proof -
  have "handle_frame fh fh' \<and> cache_opens st' = cache_opens st \<and>
        Path (fnode st') = Path (fnode st)"
  proof (cases "flags fh AND accessModeMask \<noteq> O_RDONLY \<and> \<not> (closed fh \<and> \<not> c)")
    case True
    define d where "d = delWriter e (RWFileHandleAt (addr fh)) (fh_modified fh) (fnode st)"
    from True assms obtain st2 where
      b: "flushWrites_body e c True (fst d) (fh, st\<lparr>fnode := snd d\<rparr>) = Some (err, fh', st2)"
      and s: "st' = st2\<lparr>fnode := finishWriterClose e (fnode st2)\<rparr>"
      using flushWrites_writer [of fh c e st]
      by (auto simp: d_def split: option.splits)
    note fb = flushWrites_body_frame [OF b]
    have p1: "Path (snd d) = Path (fnode st)"
      by (simp add: Path_def d_def delWriter_effect)
    have p2: "Path (fnode st2) = Path (snd d)"
      using fb by (auto simp: vfs_frame_def dest: file_frame_Path)
    have p3: "Path (finishWriterClose e (fnode st2)) = Path (fnode st2)"
      using finishWriterClose_frame by (rule file_frame_Path)
    show ?thesis using fb p1 p2 p3 by (simp add: s vfs_frame_def)
  next
    case False
    then have e: "flushWrites e c (fh, st) =
       (if (closed fh \<and> \<not> c) \<or> \<not> opened fh then Some (None, fh, st)
        else flushWrites_body e c False False (fh, st))"
      by (intro flushWrites_other) auto
    show ?thesis
    proof (cases "(closed fh \<and> \<not> c) \<or> \<not> opened fh")
      case True
      with e assms show ?thesis by auto
    next
      case False
      with e assms have b: "flushWrites_body e c False False (fh, st) = Some (err, fh', st')"
        by simp
      note fb = flushWrites_body_frame [OF b]
      show ?thesis using fb by (auto simp: vfs_frame_def dest: file_frame_Path)
    qed
  qed
  then show "handle_frame fh fh'" and "cache_opens st' = cache_opens st"
    and "Path (fnode st') = Path (fnode st)"
    by simp_all
qed

lemma flushWrites_writer_effect:
  assumes "flags fh AND accessModeMask \<noteq> O_RDONLY" "\<not> (closed fh \<and> \<not> c)"
    and "flushWrites e c (fh, st) = Some (err, fh', st')"
  shows "readWriters (fnode st') = readWriters (fnode st) - 1"
    and "writers (fnode st') = remove1 (RWFileHandleAt (addr fh)) (writers (fnode st))"
proof -
  define d where "d = delWriter e (RWFileHandleAt (addr fh)) (fh_modified fh) (fnode st)"
  from assms obtain st2 where
    b: "flushWrites_body e c True (fst d) (fh, st\<lparr>fnode := snd d\<rparr>) = Some (err, fh', st2)"
    and s: "st' = st2\<lparr>fnode := finishWriterClose e (fnode st2)\<rparr>"
    using flushWrites_writer [of fh c e st]
    by (auto simp: d_def split: option.splits)
  note fb = flushWrites_body_frame [OF b]
  have f1: "file_frame (snd d) (fnode st2)" using fb by (simp add: vfs_frame_def)
  have f2: "file_frame (fnode st2) (finishWriterClose e (fnode st2))"
    by (rule finishWriterClose_frame)
  note f = file_frame_trans [OF f1 f2]
  show "readWriters (fnode st') = readWriters (fnode st) - 1"
    using f by (simp add: s file_frame_def d_def delWriter_effect)
  show "writers (fnode st') = remove1 (RWFileHandleAt (addr fh)) (writers (fnode st))"
    using f by (simp add: s file_frame_def d_def delWriter_effect)
qed

lemma close_blocks:
  "close e (fh, st) = None \<longleftrightarrow>
     (\<not> closed fh \<and> flags fh AND accessModeMask \<noteq> O_RDONLY \<and>
      flags fh AND (O_CREATE OR O_TRUNC) \<noteq> 0 \<and> \<not> opened fh)"
  using flushWrites_blocks [of e True "fh\<lparr>closed := True\<rparr>" st]
  by (auto simp: close_def Let_def split: option.splits)

lemma close_open_handle:
  assumes "\<not> closed fh" and "close e (fh, st) = Some (err, fh', st')"
  shows "\<exists>st1. flushWrites e True (fh\<lparr>closed := True\<rparr>, st) = Some (err, fh', st1) \<and>
           readWriters (fnode st') = readWriters (fnode st1) \<and>
           writers (fnode st') = writers (fnode st1)"
    and "closed fh'"
    and "handle_frame (fh\<lparr>closed := True\<rparr>) fh'"
    and "cache_opens st' = (cache_opens st)(Path (fnode st) := cache_opens st (Path (fnode st)) - 1)"
    and "Path (fnode st') = Path (fnode st)"
proof -
  from assms obtain st1 where
    f: "flushWrites e True (fh\<lparr>closed := True\<rparr>, st) = Some (err, fh', st1)"
    and s: "st' = cache_Close
              (Path (fnode (if opened fh' then st1\<lparr>fnode := delRWOpen (fnode st1)\<rparr> else st1)))
              (if opened fh' then st1\<lparr>fnode := delRWOpen (fnode st1)\<rparr> else st1)"
    by (auto simp: close_def Let_def split: option.splits)
  note fr = flushWrites_frame [OF f]
  define st2 where "st2 = (if opened fh' then st1\<lparr>fnode := delRWOpen (fnode st1)\<rparr> else st1)"
  have s': "st' = cache_Close (Path (fnode st2)) st2" using s by (simp add: st2_def)
  have p: "Path (fnode st2) = Path (fnode st)"
    using fr(3) by (simp add: st2_def Path_def delRWOpen_def)
  have o: "cache_opens st2 = cache_opens st" using fr(2) by (simp add: st2_def)
  have "readWriters (fnode st') = readWriters (fnode st1) \<and>
        writers (fnode st') = writers (fnode st1)"
    by (simp add: s' cache_Close_def st2_def delRWOpen_def)
  with f show "\<exists>st1. flushWrites e True (fh\<lparr>closed := True\<rparr>, st) = Some (err, fh', st1) \<and>
           readWriters (fnode st') = readWriters (fnode st1) \<and>
           writers (fnode st') = writers (fnode st1)" by blast
  show "closed fh'" using fr(1) by (simp add: handle_frame_def)
  show "handle_frame (fh\<lparr>closed := True\<rparr>) fh'" by (rule fr(1))
  show "cache_opens st' = (cache_opens st)(Path (fnode st) := cache_opens st (Path (fnode st)) - 1)"
    by (simp add: s' cache_Close_def p o)
  show "Path (fnode st') = Path (fnode st)"
    using p by (simp add: s' cache_Close_def)
qed

lemma close_closed_handle: "closed fh \<Longrightarrow> close e (fh, st) = Some (Some ECLOSED, fh, st)"
  by (simp add: close_def)

subsection \<open>Closing twice\<close>

text \<open>
  When the first \<open>Close\<close> of a handle returns, it returns what the writeback step
  \<open>flushWrites(true)\<close> returns and has dropped the cache's open-refcount of the file's
  path by one, whatever the writeback returned; a second \<open>Close\<close> returns \<open>ECLOSED\<close> and
  changes nothing. The first \<open>Close\<close> returns exactly when the handle is closed or opened
  already, is read-only, or has neither \<open>O_CREATE\<close> nor \<open>O_TRUNC\<close> in its flags.
\<close>


lemma Close_twice_when_returning:
  assumes "\<not> closed fh" and "Close e1 (fh, st) = Some (err1, fh1, st1)"
  shows "map_option fst (flushWrites e1 True (fh\<lparr>closed := True\<rparr>, st)) = Some err1"
    and "cache_Opens (Path (fnode st)) st1 = cache_Opens (Path (fnode st)) st - 1"
    and "Path (fnode st1) = Path (fnode st)"
    and "Close e2 (fh1, st1) = Some (Some ECLOSED, fh1, st1)"
proof -
  have c: "close e1 (fh, st) = Some (err1, fh1, st1)" using assms(2) by (simp add: Close_def)
  note o = close_open_handle [OF assms(1) c]
  show "map_option fst (flushWrites e1 True (fh\<lparr>closed := True\<rparr>, st)) = Some err1"
    using o(1) by auto
  show "cache_Opens (Path (fnode st)) st1 = cache_Opens (Path (fnode st)) st - 1"
    using o(4) by (simp add: cache_Opens_def)
  show "Path (fnode st1) = Path (fnode st)" by (rule o(5))
  show "Close e2 (fh1, st1) = Some (Some ECLOSED, fh1, st1)"
    using o(2) by (simp add: Close_def close_closed_handle)
qed

lemma Close_returns_iff:
  "(\<exists>r. Close e (fh, st) = Some r) \<longleftrightarrow>
     (closed fh \<or> opened fh \<or> flags fh AND accessModeMask = O_RDONLY \<or>
      flags fh AND (O_CREATE OR O_TRUNC) = 0)"
  using close_blocks [of e fh st] by (cases "close e (fh, st)") (auto simp: Close_def)

text \<open>
  Claim C2 (the first \<open>Close\<close> of every RW handle returns nil or the writeback error
  and drops the cache's open-refcount of the file's path once) is not met by the code
  for a handle whose open is still pending. A file that exists on the remote is opened
  with \<open>O_WRONLY|O_CREATE\<close> and closed without any read or write: the handle is neither
  closed nor opened, the cache's open-refcount of its path is 1, and \<open>Close\<close> never
  returns. \<open>close\<close> holds \<open>muRW\<close> and \<open>flushWrites\<close> forces the pending open, which locks
  \<open>muRW\<close> again; the deferred \<open>cache.Close\<close> is never reached.
\<close>

theorem Close_pending_create_never_returns:
  "\<not> closed (fst scenario_pending) \<and> \<not> opened (fst scenario_pending) \<and>
   flags (fst scenario_pending) = (O_WRONLY OR O_CREATE) \<and>
   writers (fnode (snd scenario_pending)) = [RWFileHandleAt 1] \<and>
   cache_Opens ''dir/a'' (snd scenario_pending) = 1 \<and>
   Close env_ok scenario_pending = None"
proof -
  have a: "\<not> closed (fst scenario_pending)" by code_simp
  have b: "\<not> opened (fst scenario_pending)" by code_simp
  have c: "flags (fst scenario_pending) = (O_WRONLY OR O_CREATE)" by code_simp
  have d: "writers (fnode (snd scenario_pending)) = [RWFileHandleAt 1]" by code_simp
  have e: "cache_Opens ''dir/a'' (snd scenario_pending) = 1" by code_simp
  have f: "Option.is_none (Close env_ok scenario_pending)" by code_simp
  then have g: "Close env_ok scenario_pending = None" by (simp add: Option.is_none_def)
  show ?thesis by (intro conjI a b c d e g)
qed

subsection \<open>\<open>Release\<close>\<close>

text \<open>
  Claim C8, as the code has it. \<open>Release\<close> on a closed handle returns nil and changes
  nothing; on an open handle it is \<open>close\<close>, and when it returns it returns what \<open>close\<close>
  returns, the error of the close/writeback included: the error is logged and passed
  on, not swallowed. After it the handle is closed, so a further \<open>Release\<close> returns nil
  and changes nothing.
\<close>

theorem Release_returns_close_error:
  "(closed fh \<longrightarrow> Release e (fh, st) = Some (None, fh, st)) \<and>
   (\<not> closed fh \<longrightarrow>
      Release e (fh, st) = Close e (fh, st) \<and>
      (\<forall>err fh1 st1. Release e (fh, st) = Some (err, fh1, st1) \<longrightarrow>
         map_option fst (flushWrites e True (fh\<lparr>closed := True\<rparr>, st)) = Some err \<and>
         closed fh1 \<and>
         Release e' (fh1, st1) = Some (None, fh1, st1)))"
proof (intro conjI impI allI)
  assume "closed fh"
  then show "Release e (fh, st) = Some (None, fh, st)" by (simp add: Release_def)
next
  assume n: "\<not> closed fh"
  then show "Release e (fh, st) = Close e (fh, st)" by (simp add: Release_def Close_def)
next
  fix err fh1 st1
  assume n: "\<not> closed fh" and r: "Release e (fh, st) = Some (err, fh1, st1)"
  then have c: "close e (fh, st) = Some (err, fh1, st1)" by (simp add: Release_def)
  note o = close_open_handle [OF n c]
  show "map_option fst (flushWrites e True (fh\<lparr>closed := True\<rparr>, st)) = Some err"
    using o(1) by auto
  show "closed fh1" by (rule o(2))
  then show "Release e' (fh1, st1) = Some (None, fh1, st1)" by (simp add: Release_def)
qed

theorem Release_returns_close_error_witness:
  "\<not> closed (fst scenario_written) \<and>
   Release env_ok scenario_written = Close env_ok scenario_written \<and>
   map_option fst (Release env_ok scenario_written) = Some None \<and>
   (case Release env_ok scenario_written of
      None \<Rightarrow> False
    | Some (err, fh1, st1) \<Rightarrow> closed fh1 \<and> Release env_ok (fh1, st1) = Some (None, fh1, st1))"
proof -
  have h: "\<not> closed (fst scenario_written)" by code_simp
  have n: "map_option fst (Release env_ok scenario_written) = Some None"
    by code_simp
  then obtain fh1 st1 where r: "Release env_ok scenario_written = Some (None, fh1, st1)"
    by auto
  then have r': "Release env_ok (fst scenario_written, snd scenario_written) = Some (None, fh1, st1)"
    by simp
  note t = Release_returns_close_error [of "fst scenario_written" env_ok "snd scenario_written"
      env_ok, THEN conjunct2, rule_format, OF h]
  note u = t [THEN conjunct2, rule_format, OF r']
  have e: "Release env_ok scenario_written = Close env_ok scenario_written"
    using t [THEN conjunct1] by simp
  have c: "case Release env_ok scenario_written of
      None \<Rightarrow> False
    | Some (err, fh1, st1) \<Rightarrow> closed fh1 \<and> Release env_ok (fh1, st1) = Some (None, fh1, st1)"
    using u by (simp add: r)
  show ?thesis by (intro conjI h n c e)
qed

text \<open>
  The sentence of C8 as it is written fails on an open handle whose cache file cannot
  be closed: \<open>Release\<close> returns the wrapped error.
\<close>

theorem Release_swallows_counterexample:
  "\<not> closed (fst scenario_written) \<and>
   map_option fst (Release env_close_fails scenario_written)
     = Some (Some (Wrap ''failed to close cache file'' (ErrOther ''input/output error''))) \<and>
   map_option fst (Release env_close_fails scenario_written) \<noteq> Some None"
  by code_simp

subsection \<open>The counter of read/write handles\<close>

text \<open>
  Claim C10. \<open>readWriters \<ge> 0\<close> is not preserved. \<open>delWriter\<close> decrements \<open>readWriters\<close>
  and sets \<open>readWriterClosing\<close> also when the handle is absent from \<open>writers\<close>. So for an
  RW handle open for writing that has written, \<open>Flush\<close> followed by \<open>Close\<close> (both
  return) calls \<open>delWriter\<close> twice for the handle: the first call takes it out of
  \<open>writers\<close>, and after the second \<open>readWriters\<close> is two less than before, negative when
  this handle was the only read/write handle counted.
\<close>

theorem Flush_then_Close_readWriters:
  assumes "opened fh" "\<not> closed fh" "writeCalled fh"
    and "flags fh AND accessModeMask \<noteq> O_RDONLY"
  shows "(\<forall>f m. RWFileHandleAt (addr fh) \<notin> set (writers f) \<longrightarrow>
            readWriters (snd (delWriter e2 (RWFileHandleAt (addr fh)) m f)) = readWriters f - 1 \<and>
            readWriterClosing (snd (delWriter e2 (RWFileHandleAt (addr fh)) m f)) \<and>
            writers (snd (delWriter e2 (RWFileHandleAt (addr fh)) m f)) = writers f) \<and>
         (\<exists>err1 fh1 st1. Flush e1 (fh, st) = Some (err1, fh1, st1) \<and>
            readWriters (fnode st1) = readWriters (fnode st) - 1 \<and>
            writers (fnode st1) = remove1 (RWFileHandleAt (addr fh)) (writers (fnode st)) \<and>
            (distinct (writers (fnode st)) \<longrightarrow>
               RWFileHandleAt (addr fh) \<notin> set (writers (fnode st1))) \<and>
            (\<exists>err2 fh2 st2. Close e2 (fh1, st1) = Some (err2, fh2, st2) \<and>
               readWriters (fnode st2) = readWriters (fnode st) - 2 \<and>
               writers (fnode st2) = remove1 (RWFileHandleAt (addr fh)) (writers (fnode st1)) \<and>
               (readWriters (fnode st) = 1 \<longrightarrow> readWriters (fnode st2) < 0)))"
proof -
  have A: "\<forall>f m. RWFileHandleAt (addr fh) \<notin> set (writers f) \<longrightarrow>
            readWriters (snd (delWriter e2 (RWFileHandleAt (addr fh)) m f)) = readWriters f - 1 \<and>
            readWriterClosing (snd (delWriter e2 (RWFileHandleAt (addr fh)) m f)) \<and>
            writers (snd (delWriter e2 (RWFileHandleAt (addr fh)) m f)) = writers f"
    by (simp add: delWriter_effect remove1_idem)
  have "flushWrites e1 False (fh, st) \<noteq> None"
    using assms(1) by (simp add: flushWrites_blocks)
  then obtain err1 fh1 st1 where f: "flushWrites e1 False (fh, st) = Some (err1, fh1, st1)"
    by (cases "flushWrites e1 False (fh, st)") auto
  have F: "Flush e1 (fh, st) = Some (err1, fh1, st1)" using assms f by (simp add: Flush_def)
  have nc: "\<not> (closed fh \<and> \<not> False)" using assms(2) by simp
  note w1 = flushWrites_writer_effect [OF assms(4) nc f]
  note h1 = flushWrites_frame(1) [OF f]
  have fh1: "\<not> closed fh1" "flags fh1 AND accessModeMask \<noteq> O_RDONLY" "addr fh1 = addr fh"
    "opened fh1"
    using h1 assms by (simp_all add: handle_frame_def)
  have "close e2 (fh1, st1) \<noteq> None" using fh1(4) by (simp add: close_blocks)
  then obtain err2 fh2 st2 where c: "close e2 (fh1, st1) = Some (err2, fh2, st2)"
    by (cases "close e2 (fh1, st1)") auto
  from close_open_handle(1) [OF fh1(1) c] obtain st3 where
    o: "flushWrites e2 True (fh1\<lparr>closed := True\<rparr>, st1) = Some (err2, fh2, st3)"
      "readWriters (fnode st2) = readWriters (fnode st3)"
      "writers (fnode st2) = writers (fnode st3)"
    by blast
  have w: "flags (fh1\<lparr>closed := True\<rparr>) AND accessModeMask \<noteq> O_RDONLY"
    "\<not> (closed (fh1\<lparr>closed := True\<rparr>) \<and> \<not> True)"
    using fh1 by simp_all
  note w2 = flushWrites_writer_effect [OF w o(1), simplified]
  have r2: "readWriters (fnode st2) = readWriters (fnode st) - 2"
    using o(2) w2(1) w1(1) by simp
  have ws2: "writers (fnode st2) = remove1 (RWFileHandleAt (addr fh)) (writers (fnode st1))"
    using o(3) w2(2) fh1(3) by simp
  have d: "distinct (writers (fnode st)) \<longrightarrow> RWFileHandleAt (addr fh) \<notin> set (writers (fnode st1))"
    using w1(2) by simp
  have C: "\<exists>err2 fh2 st2. Close e2 (fh1, st1) = Some (err2, fh2, st2) \<and>
               readWriters (fnode st2) = readWriters (fnode st) - 2 \<and>
               writers (fnode st2) = remove1 (RWFileHandleAt (addr fh)) (writers (fnode st1)) \<and>
               (readWriters (fnode st) = 1 \<longrightarrow> readWriters (fnode st2) < 0)"
    using c r2 ws2 by (simp add: Close_def)
  have B: "\<exists>err1 fh1 st1. Flush e1 (fh, st) = Some (err1, fh1, st1) \<and>
            readWriters (fnode st1) = readWriters (fnode st) - 1 \<and>
            writers (fnode st1) = remove1 (RWFileHandleAt (addr fh)) (writers (fnode st)) \<and>
            (distinct (writers (fnode st)) \<longrightarrow>
               RWFileHandleAt (addr fh) \<notin> set (writers (fnode st1))) \<and>
            (\<exists>err2 fh2 st2. Close e2 (fh1, st1) = Some (err2, fh2, st2) \<and>
               readWriters (fnode st2) = readWriters (fnode st) - 2 \<and>
               writers (fnode st2) = remove1 (RWFileHandleAt (addr fh)) (writers (fnode st1)) \<and>
               (readWriters (fnode st) = 1 \<longrightarrow> readWriters (fnode st2) < 0))"
    using F w1 d C by blast
  show ?thesis by (intro conjI A B)
qed

theorem Flush_then_Close_readWriters_witness:
  "opened (fst scenario_written) \<and> \<not> closed (fst scenario_written) \<and>
   writeCalled (fst scenario_written) \<and>
   flags (fst scenario_written) AND accessModeMask \<noteq> O_RDONLY \<and>
   readWriters (fnode (snd scenario_written)) = 1 \<and>
   (case Flush env_ok scenario_written of
      None \<Rightarrow> False
    | Some (err1, fh1, st1) \<Rightarrow>
        (case Close env_ok (fh1, st1) of
           None \<Rightarrow> False
         | Some (err2, fh2, st2) \<Rightarrow> readWriters (fnode st2) = - 1))"
proof -
  have h1: "opened (fst scenario_written)" by code_simp
  have h2: "\<not> closed (fst scenario_written)" by code_simp
  have h3: "writeCalled (fst scenario_written)" by code_simp
  have h4: "flags (fst scenario_written) AND accessModeMask \<noteq> O_RDONLY" by code_simp
  have r: "readWriters (fnode (snd scenario_written)) = 1" by code_simp
  note t = Flush_then_Close_readWriters [OF h1 h2 h3 h4, where ?e1.0 = env_ok
      and ?e2.0 = env_ok and st = "snd scenario_written", THEN conjunct2]
  then obtain err1 fh1 st1 err2 fh2 st2 where
    f: "Flush env_ok (fst scenario_written, snd scenario_written) = Some (err1, fh1, st1)"
    and c: "Close env_ok (fh1, st1) = Some (err2, fh2, st2)"
    and q: "readWriters (fnode st2) = readWriters (fnode (snd scenario_written)) - 2"
    by blast
  have f': "Flush env_ok scenario_written = Some (err1, fh1, st1)" using f by simp
  have a: "case Flush env_ok scenario_written of
      None \<Rightarrow> False
    | Some (err1, fh1, st1) \<Rightarrow>
        (case Close env_ok (fh1, st1) of
           None \<Rightarrow> False
         | Some (err2, fh2, st2) \<Rightarrow> readWriters (fnode st2) = - 1)"
    using q r by (simp add: f' c)
  show ?thesis by (intro conjI h1 h2 h3 h4 r a)
qed

subsection \<open>\<open>File.Truncate\<close> on a file without writers and without object\<close>

text \<open>
  What \<open>newRWFileHandle\<close> and \<open>File.Open\<close> return, and why the \<open>Close\<close> that ends
  \<open>File.Truncate\<close> returns: the handle it closes was opened eagerly (\<open>O_TRUNC\<close>) or has
  the flags \<open>O_WRONLY\<close> alone.
\<close>

lemma openPending_Inr:
  assumes "(case openPending e t (fh0, s) of
              (Some err, fh3, st3) \<Rightarrow> (Inl err, g st3)
            | (None, fh3, st3) \<Rightarrow> (Inr fh3, st3)) = (Inr fh, st')"
  shows "handle_frame fh0 fh" and "opened fh"
proof -
  obtain r fh3 st3 where p: "openPending e t (fh0, s) = (r, fh3, st3)"
    by (cases "openPending e t (fh0, s)")
  from assms have q: "r = None" "fh = fh3" by (cases r; simp add: p)+
  show "handle_frame fh0 fh" and "opened fh"
    using openPending_frame [of fh0 e t s] q by (simp_all add: p)
qed

lemma newRWFileHandle_result:
  assumes "newRWFileHandle e a fl st = (Inr fh, st')"
  shows "addr fh = a" and "flags fh = fl" and "\<not> closed fh"
    and "fl AND O_TRUNC \<noteq> 0 \<Longrightarrow> opened fh"
proof -
  define eager where "eager \<longleftrightarrow> fl AND O_TRUNC \<noteq> 0 \<or> (fl AND O_CREATE \<noteq> 0 \<and> \<not> exists (fnode st))"
  have nf: "flags (new_handle a fl) = fl" by (simp add: new_handle_def)
  from assms have c: "(\<not> eager \<and> fh = new_handle a fl) \<or>
      (eager \<and> (\<exists>s. (case openPending e False (new_handle a fl, s) of
              (Some err, fh3, st3) \<Rightarrow>
                 (Inl err, st3\<lparr>fnode := snd (delWriter e (RWFileHandleAt a) False (fnode st3))\<rparr>)
            | (None, fh3, st3) \<Rightarrow> (Inr fh3, st3)) = (Inr fh, st')))"
    unfolding newRWFileHandle_def Let_def nf eager_def [symmetric]
    by (auto split: if_splits option.splits)
  then have f: "handle_frame (new_handle a fl) fh" and o: "eager \<Longrightarrow> opened fh"
    by (auto dest: openPending_Inr)
  have t: "fl AND O_TRUNC \<noteq> 0 \<Longrightarrow> eager" by (simp add: eager_def)
  show "addr fh = a" using f by (simp add: handle_frame_def new_handle_def)
  show "flags fh = fl" using f by (simp add: handle_frame_def new_handle_def)
  show "\<not> closed fh" using f by (simp add: handle_frame_def new_handle_def)
  show "opened fh" if "fl AND O_TRUNC \<noteq> 0" using o t [OF that] by simp
qed

lemma Open_finish_Inr:
  "Open_finish fl x = (Inr h, st') \<Longrightarrow> \<exists>s. x = (Inr h, s)"
  by (cases x) (auto simp: Open_finish_def split: sum.splits)

lemma openRW_Inr:
  "openRW e a fl st = (Inr (OpenedRW fh), s) \<Longrightarrow> newRWFileHandle e a fl st = (Inr fh, s)"
  by (auto simp: openRW_def split: if_splits prod.splits sum.splits)

lemma openWrite_not_RW: "openWrite e fl st \<noteq> (Inr (OpenedRW fh), s)"
  by (auto simp: openWrite_def split: sum.splits)

lemma openRead_not_RW: "openRead e st \<noteq> (Inr (OpenedRW fh), s)"
  by (auto simp: openRead_def split: sum.splits)

lemma Open_RW_result:
  assumes "Open e a fl st = (Inr (OpenedRW fh), st')"
  shows "\<exists>s s'. newRWFileHandle e a fl s = (Inr fh, s')"
proof -
  define s1 where "s1 = (if fl AND O_APPEND \<noteq> 0
                       then st\<lparr>fnode := (fnode st)\<lparr>appendMode := True\<rparr>\<rparr> else st)"
  from assms have
    "Open_finish fl (openRW e a fl s1) = (Inr (OpenedRW fh), st') \<or>
     Open_finish fl (openWrite e fl s1) = (Inr (OpenedRW fh), st') \<or>
     Open_finish fl (openRead e s1) = (Inr (OpenedRW fh), st')"
    unfolding Open_def Let_def s1_def [symmetric] by (simp split: if_splits)
  then obtain s where "openRW e a fl s1 = (Inr (OpenedRW fh), s)"
    using openWrite_not_RW openRead_not_RW by (blast dest: Open_finish_Inr)
  then show ?thesis by (blast dest: openRW_Inr)
qed

lemma RW_Truncate_frame:
  "handle_frame fh (fst (snd (RW_Truncate e n (fh, st))))"
proof -
  obtain r fh1 st1 where p: "openPending e (n = 0) (fh, st) = (r, fh1, st1)"
    by (cases "openPending e (n = 0) (fh, st)")
  have f: "handle_frame fh fh1" using openPending_frame [of fh e "n = 0" st] by (simp add: p)
  then have "handle_frame fh (fh1\<lparr>changed := True\<rparr>)" by (simp add: handle_frame_def)
  with f show ?thesis by (simp add: RW_Truncate_def p split: option.splits)
qed

lemma Close_returns:
  assumes "opened fh \<or> flags fh AND (O_CREATE OR O_TRUNC) = 0"
  shows "\<exists>r. Close e (fh, st) = Some r"
  using assms Close_returns_iff [of e fh st] by blast

lemma O_WRONLY_plain: "O_WRONLY AND (O_CREATE OR O_TRUNC) = 0"
  by (simp add: O_WRONLY_def O_CREATE_def O_TRUNC_def)

lemma O_TRUNC_set: "(O_WRONLY OR O_TRUNC) AND O_TRUNC \<noteq> 0"
  by (simp add: O_WRONLY_def O_TRUNC_def)

lemma File_Truncate_reopen_returns:
  assumes o: "Open e a (if n = 0 then O_WRONLY OR O_TRUNC else O_WRONLY) st = (Inr h, st1)"
    and hs1: "hs1 = (case h of OpenedRW fh \<Rightarrow> hs(a := fh) | _ \<Rightarrow> hs)"
    and t: "(if n \<noteq> 0 then handle_Truncate e n h (hs1, st1) else (None, hs1, st1)) = (err, hs2, st2)"
  shows "\<exists>r. handle_Close e h (hs2, st2) = Some r"
proof (cases h)
  case (OpenedRW fh)
  define fl where "fl = (if n = 0 then O_WRONLY OR O_TRUNC else O_WRONLY)"
  from o OpenedRW obtain s s' where "newRWFileHandle e a fl s = (Inr fh, s')"
    unfolding fl_def [symmetric] by (blast dest: Open_RW_result)
  note r = newRWFileHandle_result [OF this]
  have h1: "hs1 a = fh" using hs1 OpenedRW by simp
  have "opened (hs2 a) \<or> flags (hs2 a) AND (O_CREATE OR O_TRUNC) = 0"
  proof (cases "n = 0")
    case True
    then have "hs2 = hs1" using t by simp
    moreover have "opened fh" using r(4) True by (simp add: fl_def O_TRUNC_set)
    ultimately show ?thesis using h1 by simp
  next
    case False
    then have t': "handle_Truncate e n h (hs1, st1) = (err, hs2, st2)" using t by simp
    obtain x fh1 y where q: "RW_Truncate e n (fh, st1) = (x, fh1, y)"
      by (cases "RW_Truncate e n (fh, st1)")
    have "hs2 = hs1(a := fh1)"
      using t' by (auto simp: handle_Truncate_def OpenedRW r(1) h1 q)
    moreover have "flags fh1 = fl"
      using RW_Truncate_frame [of fh e n st1] r(2) by (simp add: q handle_frame_def)
    ultimately show ?thesis using False by (simp add: fl_def O_WRONLY_plain)
  qed
  then obtain z where "Close e (hs2 a, st2) = Some z"
    using Close_returns [of "hs2 a" e st2] by blast
  then show ?thesis
    by (cases z) (simp add: handle_Close_def OpenedRW r(1))
qed (simp_all add: handle_Close_def)

lemma File_Truncate_not_Blocks: "File_Truncate es a n (hs, st) \<noteq> Blocks"
proof (cases "length (writers (fnode st)) \<noteq> 0")
  case True
  then show ?thesis by (simp add: File_Truncate_def Let_def)
next
  case nw: False
  show ?thesis
  proof (cases "obj (fnode st)")
    case None
    with nw show ?thesis by (simp add: File_Truncate_def Let_def)
  next
    case (Some ob1)
    define fl where "fl = (if n = 0 then O_WRONLY OR O_TRUNC else O_WRONLY)"
    obtain res st1 where o: "Open (es 0) a fl st = (res, st1)" by (cases "Open (es 0) a fl st")
    show ?thesis
    proof (cases res)
      case (Inl err)
      with nw Some o show ?thesis
        by (simp add: File_Truncate_def Let_def fl_def [symmetric])
    next
      case (Inr h)
      define hs1 where "hs1 = (case h of OpenedRW fh \<Rightarrow> hs(a := fh) | _ \<Rightarrow> hs)"
      obtain err hs2 st2 where
        t: "(if n \<noteq> 0 then handle_Truncate (es 0) n h (hs1, st1) else (None, hs1, st1)) = (err, hs2, st2)"
        by (cases "if n \<noteq> 0 then handle_Truncate (es 0) n h (hs1, st1) else (None, hs1, st1)")
      have o': "Open (es 0) a (if n = 0 then O_WRONLY OR O_TRUNC else O_WRONLY) st = (Inr h, st1)"
        using o Inr by (simp add: fl_def)
      obtain r where c: "handle_Close (es 0) h (hs2, st2) = Some r"
        using File_Truncate_reopen_returns [OF o' hs1_def t] by blast
      have "File_Truncate es a n (hs, st) =
         (if ObjSize ob1 = n then Returns (None, hs, st)
          else case r of (cerr, hs3, st3) \<Rightarrow> Returns (if err = None then cerr else err, hs3, st3))"
        using nw Some o' t c
        by (simp add: File_Truncate_def Let_def hs1_def [symmetric] split: prod.splits)
      then show ?thesis by (simp split: prod.splits)
    qed
  qed
qed

text \<open>
  Claim C9. \<open>File.Truncate(size)\<close> returns exactly when the file has a writer or a remote
  object: with no writers and a nil object the comparison \<open>o.Size() == size\<close>
  dereferences nil and the call panics; with a writer or an object it returns.
\<close>

theorem File_Truncate_panics_iff:
  "(File_Truncate es a n (hs, st) = Panics \<longleftrightarrow>
      (writers (fnode st) = [] \<and> obj (fnode st) = None)) \<and>
   ((\<exists>r. File_Truncate es a n (hs, st) = Returns r) \<longleftrightarrow>
      (writers (fnode st) \<noteq> [] \<or> obj (fnode st) \<noteq> None))"
proof -
  have p: "File_Truncate es a n (hs, st) = Panics \<longleftrightarrow>
      (writers (fnode st) = [] \<and> obj (fnode st) = None)"
    by (simp add: File_Truncate_def Let_def split: option.splits prod.splits sum.splits)
  have q: "(\<exists>r. File_Truncate es a n (hs, st) = Returns r) \<longleftrightarrow>
      File_Truncate es a n (hs, st) \<noteq> Panics"
    using File_Truncate_not_Blocks [of es a n hs st]
    by (cases "File_Truncate es a n (hs, st)") auto
  show ?thesis unfolding q p by simp
qed

theorem File_Truncate_panics_iff_witness:
  "writers (fnode scenario_store_failed) = [] \<and> obj (fnode scenario_store_failed) = None \<and>
   File_Truncate (\<lambda>k. env_ok) 2 5 (\<lambda>a. new_handle a O_RDONLY, scenario_store_failed) = Panics"
proof -
  have h1: "writers (fnode scenario_store_failed) = []" by code_simp
  have h2: "obj (fnode scenario_store_failed) = None" by code_simp
  have "File_Truncate (\<lambda>k. env_ok) 2 5 (\<lambda>a. new_handle a O_RDONLY, scenario_store_failed) = Panics"
    using File_Truncate_panics_iff [of "\<lambda>k. env_ok" 2 5 "\<lambda>a. new_handle a O_RDONLY"
        scenario_store_failed, THEN conjunct1] h1 h2 by simp
  then show ?thesis by (intro conjI h1 h2)
qed

end
